theory Spec2Isabelle
  imports Main "HOL-Library.Word"
begin

section \<open>The persistent store of \<open>index.js\<close>\<close>

text \<open>
  The bot keeps three SQLite tables. Each table is modelled as the list of its rows in
  rowid order, each row as a record with the columns of the \<open>CREATE TABLE\<close> statement.
  Identifiers (\<open>TEXT\<close> snowflakes) are strings that are only ever compared for equality;
  \<open>INTEGER\<close> columns are integers; the 64 bits of SQLite show where sums are taken,
  in the stats query. A column without \<open>NOT NULL\<close> is an \<open>option\<close>, \<open>None\<close> being SQL
  \<open>NULL\<close>. Beside the tables the store holds the \<open>sqlite_sequence\<close> counters of
  \<open>guild_users\<close> and \<open>messages\<close>, the largest rowid handed out so far for each.
\<close>

type_synonym snowflake = string

record guild_user_row =
  gu_id :: int
  gu_guild_id :: snowflake
  gu_user_id :: snowflake
  first_seen :: int
  last_seen :: int

record message_row =
  msg_id :: int
  msg_guild_id :: snowflake
  msg_channel_id :: snowflake
  msg_user_id :: snowflake
  message_id :: snowflake
  created_at :: int
  has_attachment :: "int option"
  attachment_count :: "int option"
  x_link_count :: "int option"

record voice_session_row =
  vs_id :: int
  vs_guild_id :: snowflake
  vs_user_id :: snowflake
  vs_channel_id :: snowflake
  joined_at :: int
  left_at :: "int option"
  duration_seconds :: "int option"

record db =
  guild_users :: "guild_user_row list"
  guild_users_seq :: int
  messages :: "message_row list"
  messages_seq :: int
  voice_sessions :: "voice_session_row list"

definition empty_db :: db where
  "empty_db = \<lparr>guild_users = [], guild_users_seq = 0, messages = [], messages_seq = 0,
                voice_sessions = []\<rparr>"

text \<open>
  \<open>INTEGER PRIMARY KEY AUTOINCREMENT\<close>: an insert takes one more than the larger of the
  largest stored rowid and the counter, and leaves that number in the counter. It does so
  before the \<open>UNIQUE\<close> constraints are looked at, so an insert that ends in
  \<open>OR IGNORE\<close> or in \<open>DO UPDATE\<close> has used the number up all the same.

  \<open>voice_sessions\<close> is written by a plain insert only, which cannot meet a conflict, and
  no row is ever deleted; its counter is then the largest stored rowid and is left out.
\<close>

definition next_rowid :: "int list \<Rightarrow> int" where
  "next_rowid ids = fold max ids 0 + 1"

definition autoincrement :: "int \<Rightarrow> int list \<Rightarrow> int" where
  "autoincrement seq ids = max (seq + 1) (next_rowid ids)"

subsection \<open>Prepared statements\<close>

text \<open>
  \<open>insertOrUpdateUser\<close>: insert \<open>(guild_id, user_id, ts, ts)\<close>; on a conflict with the
  \<open>UNIQUE(guild_id, user_id)\<close> constraint set \<open>last_seen = ts\<close> in the conflicting row.
  Either way a rowid is taken.
\<close>

definition is_user :: "snowflake \<Rightarrow> snowflake \<Rightarrow> guild_user_row \<Rightarrow> bool" where
  "is_user g u r = (gu_guild_id r = g \<and> gu_user_id r = u)"

definition insertOrUpdateUser :: "snowflake \<Rightarrow> snowflake \<Rightarrow> int \<Rightarrow> db \<Rightarrow> db" where
  "insertOrUpdateUser g u ts d =
     (let rowid = autoincrement (guild_users_seq d) (map gu_id (guild_users d))
      in if list_ex (is_user g u) (guild_users d)
         then d\<lparr>guild_users :=
                  map (\<lambda>r. if is_user g u r then r\<lparr>last_seen := ts\<rparr> else r) (guild_users d),
                guild_users_seq := rowid\<rparr>
         else d\<lparr>guild_users := guild_users d @
                  [\<lparr>gu_id = rowid, gu_guild_id = g, gu_user_id = u,
                    first_seen = ts, last_seen = ts\<rparr>],
                guild_users_seq := rowid\<rparr>)"

text \<open>
  \<open>insertMessage\<close> is \<open>INSERT OR IGNORE\<close>: when a row with the same \<open>message_id\<close>
  (the \<open>UNIQUE\<close> column) exists the statement writes no row and reports no error; the
  rowid it took is lost. The argument carries the eight bound columns; its \<open>msg_id\<close> is
  replaced by the new rowid.
\<close>

definition insertMessage :: "message_row \<Rightarrow> db \<Rightarrow> db" where
  "insertMessage row d =
     (let rowid = autoincrement (messages_seq d) (map msg_id (messages d))
      in if list_ex (\<lambda>r. message_id r = message_id row) (messages d)
         then d\<lparr>messages_seq := rowid\<rparr>
         else d\<lparr>messages := messages d @ [row\<lparr>msg_id := rowid\<rparr>],
                messages_seq := rowid\<rparr>)"

text \<open>\<open>insertVoiceSession\<close>: a plain insert; \<open>left_at\<close> and \<open>duration_seconds\<close> are not
  bound and stay \<open>NULL\<close>.\<close>

definition insertVoiceSession :: "snowflake \<Rightarrow> snowflake \<Rightarrow> snowflake \<Rightarrow> int \<Rightarrow> db \<Rightarrow> db" where
  "insertVoiceSession g u c j d =
     d\<lparr>voice_sessions := voice_sessions d @
         [\<lparr>vs_id = next_rowid (map vs_id (voice_sessions d)),
           vs_guild_id = g, vs_user_id = u, vs_channel_id = c,
           joined_at = j, left_at = None, duration_seconds = None\<rparr>]\<rparr>"

text \<open>
  \<open>selectOpenVoiceSession\<close>: the rows of the pair with \<open>left_at IS NULL\<close>, ordered by
  \<open>joined_at DESC\<close>, first row only; the result is \<open>(id, joined_at)\<close>, or nothing.
  SQL leaves the order among equal \<open>joined_at\<close> open; the model takes the row of lowest
  rowid among them.
\<close>

definition is_open :: "snowflake \<Rightarrow> snowflake \<Rightarrow> voice_session_row \<Rightarrow> bool" where
  "is_open g u r = (vs_guild_id r = g \<and> vs_user_id r = u \<and> left_at r = None)"

fun latest_joined :: "voice_session_row list \<Rightarrow> voice_session_row option" where
  "latest_joined [] = None"
| "latest_joined (r # rs) =
     (case latest_joined rs of
        None \<Rightarrow> Some r
      | Some b \<Rightarrow> if joined_at r < joined_at b then Some b else Some r)"

definition selectOpenVoiceSession :: "snowflake \<Rightarrow> snowflake \<Rightarrow> db \<Rightarrow> (int \<times> int) option" where
  "selectOpenVoiceSession g u d =
     map_option (\<lambda>r. (vs_id r, joined_at r))
       (latest_joined (filter (is_open g u) (voice_sessions d)))"

text \<open>\<open>updateVoiceSessionLeave\<close>: \<open>UPDATE ... SET left_at, duration_seconds WHERE id = @id\<close>.\<close>

definition updateVoiceSessionLeave :: "int \<Rightarrow> int \<Rightarrow> int \<Rightarrow> db \<Rightarrow> db" where
  "updateVoiceSessionLeave l dur i d =
     d\<lparr>voice_sessions :=
         map (\<lambda>r. if vs_id r = i then r\<lparr>left_at := Some l, duration_seconds := Some dur\<rparr> else r)
           (voice_sessions d)\<rparr>"

section \<open>Voice session handling\<close>

text \<open>
  A voice state as \<open>onVoiceUpdate\<close> reads it: the member (its id, and the \<open>bot\<close> flag of
  its user when the user is there), the id of the guild, and the id of the channel,
  each of which may be missing.
\<close>

record member =
  member_id :: snowflake
  member_user_bot :: "bool option"

record voice_state =
  state_member :: "member option"
  state_guild :: "snowflake option"
  state_channel :: "snowflake option"

text \<open>The operator \<open>??\<close>: the left operand unless it is missing.\<close>

definition nullish :: "'a option \<Rightarrow> 'a option \<Rightarrow> 'a option" where
  "nullish a b = (case a of Some x \<Rightarrow> Some x | None \<Rightarrow> b)"

text \<open>
  \<open>onVoiceUpdate oldState newState t1 t2 d\<close>: \<open>t1\<close> is what the first call of \<open>nowTs()\<close>
  in this run of the handler returns and \<open>t2\<close> what the second one returns. Only the
  switch branch reads the clock twice, and only when it finds an open session to close
  (\<open>leftAt\<close> is the first reading, the new \<open>joined_at\<close> the second). No
  statement of the \<open>try\<close> block can throw on these inputs, so the \<open>catch\<close> branch
  does not appear.
\<close>

definition onVoiceUpdate :: "voice_state \<Rightarrow> voice_state \<Rightarrow> int \<Rightarrow> int \<Rightarrow> db \<Rightarrow> db" where
  "onVoiceUpdate oldState newState t1 t2 d =
     (case nullish (state_member newState) (state_member oldState) of
        None \<Rightarrow> d
      | Some mem \<Rightarrow>
          if member_user_bot mem = Some True then d
          else
            (case nullish (state_guild newState) (state_guild oldState) of
               None \<Rightarrow> d
             | Some guildId \<Rightarrow>
                 (case (state_channel oldState, state_channel newState) of
                    (None, Some c) \<Rightarrow> insertVoiceSession guildId (member_id mem) c t1 d
                  | (Some a, None) \<Rightarrow>
                      (case selectOpenVoiceSession guildId (member_id mem) d of
                         None \<Rightarrow> d
                       | Some (i, j) \<Rightarrow> updateVoiceSessionLeave t1 (t1 - j) i d)
                  | (Some a, Some c) \<Rightarrow>
                      if a \<noteq> c
                      then (case selectOpenVoiceSession guildId (member_id mem) d of
                              None \<Rightarrow> insertVoiceSession guildId (member_id mem) c t1 d
                            | Some (i, j) \<Rightarrow>
                                insertVoiceSession guildId (member_id mem) c t2
                                  (updateVoiceSessionLeave t1 (t1 - j) i d))
                      else d
                  | (None, None) \<Rightarrow> d)))"

section \<open>Counting X links: the regular expression\<close>

text \<open>
  A JavaScript string is a sequence of UTF-16 code units, and a regular expression
  without the \<open>u\<close> flag matches code unit by code unit.
\<close>

type_synonym code_unit = "16 word"
type_synonym js_string = "code_unit list"

definition utf16 :: "string \<Rightarrow> js_string" where
  "utf16 s = map of_char s"

text \<open>
  The part of the pattern language that \<open>X_LINK_REGEX\<close> uses: a pattern character, a
  character class (also a negated one, and the dot), sequence, alternation, the greedy
  \<open>?\<close> and the greedy \<open>*\<close>. The groups of the pattern are all non-capturing.
\<close>

datatype rx =
    Chr code_unit
  | Cls "code_unit \<Rightarrow> bool"
  | Seq rx rx
  | Alt rx rx
  | Opt rx
  | Star rx
  | Eps

text \<open>
  Under the \<open>i\<close> flag two code units match when their canonical forms are equal. The
  canonical form is the upper case of the code unit, except that a code unit from 128 on
  never takes a canonical form below 128; so below 128 only the letters \<open>a\<close> to \<open>z\<close>
  change, and no code unit from 128 on is equal to an ASCII pattern character. The
  pattern characters of this program are ASCII, and the model leaves the code units from
  128 on as they are.
\<close>

definition canonicalize :: "code_unit \<Rightarrow> code_unit" where
  "canonicalize c = (if 97 \<le> unat c \<and> unat c \<le> 122 then c - 32 else c)"

text \<open>
  The backtracking matcher: \<open>rmatch r s\<close> lists what is left of \<open>s\<close> after each way of
  matching \<open>r\<close> at its start, in the order in which the engine tries them, so the head of
  the list is the match the engine reports. A quantifier refuses an iteration that
  consumes nothing.
\<close>

function rmatch :: "rx \<Rightarrow> js_string \<Rightarrow> js_string list" where
  "rmatch (Chr p) s =
     (case s of [] \<Rightarrow> [] | c # cs \<Rightarrow> if canonicalize c = canonicalize p then [cs] else [])"
| "rmatch (Cls f) s = (case s of [] \<Rightarrow> [] | c # cs \<Rightarrow> if f c then [cs] else [])"
| "rmatch Eps s = [s]"
| "rmatch (Seq a b) s = concat (map (rmatch b) (rmatch a s))"
| "rmatch (Alt a b) s = rmatch a s @ rmatch b s"
| "rmatch (Opt a) s = filter (\<lambda>s'. length s' < length s) (rmatch a s) @ [s]"
| "rmatch (Star a) s =
     concat (map (rmatch (Star a)) (filter (\<lambda>s'. length s' < length s) (rmatch a s))) @ [s]"
  by pat_completeness auto
termination
  by (relation "measures [\<lambda>(r, s). size r, \<lambda>(r, s). length s]") auto

text \<open>
  The loop of \<open>String.prototype.match\<close> for a pattern with the \<open>g\<close> flag: try the
  pattern at index 0; after a match go on at its end (one further when it was empty);
  after a failure go on one further; stop beyond the end of the string. \<open>scan r s i k\<close>
  is at index \<open>i\<close> with \<open>s\<close> left and \<open>k\<close> code units of the last match still to pass;
  it returns the start and the length of every match.
\<close>

fun scan :: "rx \<Rightarrow> js_string \<Rightarrow> nat \<Rightarrow> nat \<Rightarrow> (nat \<times> nat) list" where
  "scan r [] i k =
     (if 0 < k then []
      else (case rmatch r [] of [] \<Rightarrow> [] | s' # _ \<Rightarrow> [(i, 0)]))"
| "scan r (c # cs) i k =
     (if 0 < k then scan r cs (i + 1) (k - 1)
      else (case rmatch r (c # cs) of
              [] \<Rightarrow> scan r cs (i + 1) 0
            | s' # _ \<Rightarrow>
                (i, length (c # cs) - length s') #
                scan r cs (i + 1) (length (c # cs) - length s' - 1)))"

text \<open>\<open>str.match(r)\<close>: \<open>null\<close> when nothing matches, else the array of the matched texts.\<close>

definition js_match :: "js_string \<Rightarrow> rx \<Rightarrow> js_string list option" where
  "js_match s r =
     (case scan r s 0 0 of
        [] \<Rightarrow> None
      | ms \<Rightarrow> Some (map (\<lambda>(i, n). take n (drop i s)) ms))"

text \<open>
  \<open>\s\<close> is white space and line terminators; the dot (no \<open>s\<close> flag) is every code unit
  but a line terminator.
\<close>

definition is_space :: "code_unit \<Rightarrow> bool" where
  "is_space c =
     (unat c \<in> set [9, 10, 11, 12, 13, 32, 160, 5760, 8232, 8233, 8239, 8287, 12288, 65279]
      \<or> (8192 \<le> unat c \<and> unat c \<le> 8202))"

definition is_line_terminator :: "code_unit \<Rightarrow> bool" where
  "is_line_terminator c = (unat c \<in> set [10, 13, 8232, 8233])"

definition lits :: "string \<Rightarrow> rx" where
  "lits s = foldr (\<lambda>c r. Seq (Chr (of_char c)) r) s Eps"

text \<open>
  \<^verbatim>\<open>/(?:https?:\/\/)?(?:www\.)?(?:x\.com|twitter\.com|t\.co)\/[^\s/$.?#].[^\s]*/gi\<close>
\<close>

definition X_LINK_REGEX :: rx where
  "X_LINK_REGEX =
     Seq (Opt (Seq (lits ''http'') (Seq (Opt (Chr (of_char CHR ''s''))) (lits ''://''))))
    (Seq (Opt (lits ''www.''))
    (Seq (Alt (lits ''x.com'') (Alt (lits ''twitter.com'') (lits ''t.co'')))
    (Seq (Chr (of_char CHR ''/''))
    (Seq (Cls (\<lambda>c. \<not> (is_space c \<or> c \<in> set (utf16 ''/$.?#''))))
    (Seq (Cls (\<lambda>c. \<not> is_line_terminator c))
         (Star (Cls (\<lambda>c. \<not> is_space c))))))))"

section \<open>Message logging\<close>

text \<open>
  A message as \<open>logMessageToDB\<close> reads it: the guild (its id) and the author, which the
  function allows to be missing, the ids of the channel and of the message, the size of
  the attachment collection when there is one, and the text.
\<close>

record author =
  author_id :: snowflake
  author_bot :: bool

record message =
  m_guild :: "snowflake option"
  m_author :: "author option"
  m_channel_id :: snowflake
  m_id :: snowflake
  m_attachments_size :: "nat option"
  m_content :: js_string

datatype js_error = TypeError

text \<open>\<open>xCount\<close>: 0 for an empty text and when \<open>match\<close> returns \<open>null\<close>, else the number of
  matches.\<close>

definition xCount :: "js_string \<Rightarrow> nat" where
  "xCount content =
     (if content = [] then 0
      else (case js_match content X_LINK_REGEX of None \<Rightarrow> 0 | Some matches \<Rightarrow> length matches))"

text \<open>
  \<open>logMessageToDB message ts d\<close>, \<open>ts\<close> being what \<open>nowTs()\<close> returns. The result is the
  store and what the \<open>catch\<close> block logged, if anything. With no author,
  \<open>message.author?.bot\<close> is \<open>undefined\<close> and the function goes on to read
  \<open>message.author.id\<close>, which throws before the first statement runs.
\<close>

definition logMessageToDB :: "message \<Rightarrow> int \<Rightarrow> db \<Rightarrow> db \<times> js_error option" where
  "logMessageToDB message ts d =
     (case m_guild message of
        None \<Rightarrow> (d, None)
      | Some guild \<Rightarrow>
          (case m_author message of
             None \<Rightarrow> (d, Some TypeError)
           | Some a \<Rightarrow>
               if author_bot a then (d, None)
               else
                 (let d1 = insertOrUpdateUser guild (author_id a) ts d;
                      hasAttachment =
                        (case m_attachments_size message of
                           None \<Rightarrow> 0 | Some n \<Rightarrow> if 0 < n then 1 else (0::int));
                      attachmentCount =
                        (case m_attachments_size message of None \<Rightarrow> 0 | Some n \<Rightarrow> int n)
                  in (insertMessage
                        \<lparr>msg_id = 0, msg_guild_id = guild, msg_channel_id = m_channel_id message,
                          msg_user_id = author_id a, message_id = m_id message, created_at = ts,
                          has_attachment = Some hasAttachment,
                          attachment_count = Some attachmentCount,
                          x_link_count = Some (int (xCount (m_content message)))\<rparr> d1,
                      None))))"

section \<open>The stats query\<close>

text \<open>
  SQL aggregates: \<open>COUNT(*)\<close> counts rows; \<open>SUM\<close> skips \<open>NULL\<close> and is \<open>NULL\<close> itself when
  no value is left; it adds in 64 bits, row after row in rowid order (none of the three
  queries can use an index), and raises \<open>integer overflow\<close> as soon as a running sum
  leaves the 64 bits; \<open>COALESCE(x, 0)\<close> replaces \<open>NULL\<close> by 0.
\<close>

datatype sql_error = IntegerOverflow

definition int64_range :: "int \<Rightarrow> bool" where
  "int64_range x = (- (2 ^ 63) \<le> x \<and> x < 2 ^ 63)"

fun sum_from :: "int \<Rightarrow> int list \<Rightarrow> sql_error + int" where
  "sum_from acc [] = Inr acc"
| "sum_from acc (x # xs) =
     (if int64_range (acc + x) then sum_from (acc + x) xs else Inl IntegerOverflow)"

definition sql_sum :: "int option list \<Rightarrow> sql_error + int option" where
  "sql_sum vs =
     (case List.map_filter (\<lambda>v. v) vs of
        [] \<Rightarrow> Inr None
      | xs \<Rightarrow> (case sum_from 0 xs of Inl e \<Rightarrow> Inl e | Inr v \<Rightarrow> Inr (Some v)))"

definition coalesce :: "int option \<Rightarrow> int \<Rightarrow> int" where
  "coalesce v dflt = (case v of None \<Rightarrow> dflt | Some x \<Rightarrow> x)"

text \<open>
  A 64-bit integer of a result row reaches JavaScript as a number, that is a double: exact
  up to \<open>2^53\<close> in absolute value, beyond that rounded to 53 significant bits, to the
  nearest, a tie going to the even one.
\<close>

function bit_length :: "int \<Rightarrow> nat" where
  "bit_length n = (if n \<le> 0 then 0 else Suc (bit_length (n div 2)))"
  by pat_completeness auto
termination
  by (relation "measure nat") auto

declare bit_length.simps [simp del]

definition to_number :: "int \<Rightarrow> int" where
  "to_number x =
     (let m = \<bar>x\<bar>; e = bit_length m - 53; q = m div 2 ^ e; r = m mod 2 ^ e
      in if e = 0 then x
         else sgn x * ((if 2 ^ e < 2 * r \<or> (2 * r = 2 ^ e \<and> odd q) then q + 1 else q) * 2 ^ e))"

text \<open>
  The three queries of \<open>buildStatsEmbed\<close>, each the row that \<open>get\<close> returns or the
  error it throws. An aggregate query without \<open>GROUP BY\<close> returns one row on every table,
  so the \<open>?.\<close> and \<open>??\<close> around the rows never take their default.
\<close>

definition msgRow :: "snowflake \<Rightarrow> snowflake \<Rightarrow> db \<Rightarrow> sql_error + int \<times> int" where
  "msgRow guildId userId d =
     (let msgs = filter (\<lambda>r. msg_guild_id r = guildId \<and> msg_user_id r = userId) (messages d)
      in case sql_sum (map attachment_count msgs) of
           Inl e \<Rightarrow> Inl e
         | Inr v \<Rightarrow> Inr (to_number (int (length msgs)), to_number (coalesce v 0)))"

definition voiceRow :: "snowflake \<Rightarrow> snowflake \<Rightarrow> db \<Rightarrow> sql_error + int" where
  "voiceRow guildId userId d =
     (let voice = filter (\<lambda>r. vs_guild_id r = guildId \<and> vs_user_id r = userId) (voice_sessions d)
      in case sql_sum (map duration_seconds voice) of
           Inl e \<Rightarrow> Inl e
         | Inr v \<Rightarrow> Inr (to_number (coalesce v 0)))"

definition xRow :: "snowflake \<Rightarrow> snowflake \<Rightarrow> db \<Rightarrow> sql_error + int" where
  "xRow guildId userId d =
     (let msgs = filter (\<lambda>r. msg_guild_id r = guildId \<and> msg_user_id r = userId) (messages d)
      in case sql_sum (map x_link_count msgs) of
           Inl e \<Rightarrow> Inl e
         | Inr v \<Rightarrow> Inr (to_number (coalesce v 0)))"

text \<open>
  \<open>buildStatsEmbed\<close>: the embed with the four totals, or, when a query throws, the
  fallback embed of the \<open>catch\<close> block, which says that the stats could not be built.
\<close>

record stats =
  totalMessages :: int
  totalAttachments :: int
  totalVoiceSec :: int
  totalXLinks :: int

datatype embed = StatsEmbed stats | ErrorEmbed

definition buildStatsEmbed :: "snowflake \<Rightarrow> snowflake \<Rightarrow> db \<Rightarrow> embed" where
  "buildStatsEmbed guildId userId d =
     (case msgRow guildId userId d of
        Inl e \<Rightarrow> ErrorEmbed
      | Inr (total_messages, total_attachments) \<Rightarrow>
          (case voiceRow guildId userId d of
             Inl e \<Rightarrow> ErrorEmbed
           | Inr total_voice \<Rightarrow>
               (case xRow guildId userId d of
                  Inl e \<Rightarrow> ErrorEmbed
                | Inr total_x_links \<Rightarrow>
                    StatsEmbed \<lparr>totalMessages = total_messages,
                                totalAttachments = total_attachments,
                                totalVoiceSec = total_voice,
                                totalXLinks = total_x_links\<rparr>)))"

section \<open>The event stream\<close>

text \<open>
  The two gateway events that write to the store, each with the clock readings its handler
  takes, and the store after a sequence of them.
\<close>

datatype event =
    MessageCreate message int
  | VoiceStateUpdate voice_state voice_state int int

fun handle :: "event \<Rightarrow> db \<Rightarrow> db" where
  "handle (MessageCreate message ts) d = fst (logMessageToDB message ts d)"
| "handle (VoiceStateUpdate oldState newState t1 t2) d = onVoiceUpdate oldState newState t1 t2 d"

definition run :: "event list \<Rightarrow> db \<Rightarrow> db" where
  "run evs d = fold handle evs d"

section \<open>Notions used to state the properties\<close>

text \<open>
  The (guild, user) pair for which \<open>onVoiceUpdate\<close> goes on to look at the channels:
  none when the member is missing or a bot, or when the guild is missing.
\<close>

definition event_pair :: "voice_state \<Rightarrow> voice_state \<Rightarrow> (snowflake \<times> snowflake) option" where
  "event_pair oldState newState =
     (case nullish (state_member newState) (state_member oldState) of
        None \<Rightarrow> None
      | Some mem \<Rightarrow>
          if member_user_bot mem = Some True then None
          else (case nullish (state_guild newState) (state_guild oldState) of
                  None \<Rightarrow> None
                | Some guildId \<Rightarrow> Some (guildId, member_id mem)))"

text \<open>The number of open sessions (rows with \<open>left_at = NULL\<close>) of a pair.\<close>

definition open_count :: "snowflake \<Rightarrow> snowflake \<Rightarrow> db \<Rightarrow> nat" where
  "open_count g u d = length (filter (is_open g u) (voice_sessions d))"

text \<open>The pair for which an event is processed as a join (old channel none, new channel some).\<close>

fun join_target :: "event \<Rightarrow> (snowflake \<times> snowflake) option" where
  "join_target (MessageCreate message ts) = None"
| "join_target (VoiceStateUpdate oldState newState t1 t2) =
     (if state_channel oldState = None \<and> state_channel newState \<noteq> None
      then event_pair oldState newState else None)"

text \<open>A stream in which every join arrives while its pair has no open session.\<close>

fun joins_fresh :: "event list \<Rightarrow> db \<Rightarrow> bool" where
  "joins_fresh [] d = True"
| "joins_fresh (e # es) d =
     ((case join_target e of None \<Rightarrow> True | Some (g, u) \<Rightarrow> open_count g u d = 0)
      \<and> joins_fresh es (handle e d))"

text \<open>
  The total of the specification: the durations of the closed sessions of the pair
  (rows whose \<open>left_at\<close> is set), a missing duration counting 0.
\<close>

definition closed_total :: "snowflake \<Rightarrow> snowflake \<Rightarrow> db \<Rightarrow> int" where
  "closed_total g u d =
     sum_list (map (\<lambda>r. coalesce (duration_seconds r) 0)
       (filter (\<lambda>r. vs_guild_id r = g \<and> vs_user_id r = u \<and> left_at r \<noteq> None)
          (voice_sessions d)))"

text \<open>Every open session has no duration yet.\<close>

definition open_without_duration :: "db \<Rightarrow> bool" where
  "open_without_duration d =
     list_all (\<lambda>r. left_at r = None \<longrightarrow> duration_seconds r = None) (voice_sessions d)"

text \<open>The presence row of a pair.\<close>

definition user_row :: "snowflake \<Rightarrow> snowflake \<Rightarrow> db \<Rightarrow> guild_user_row option" where
  "user_row g u d = find (is_user g u) (guild_users d)"

text \<open>The number of matches that \<open>match\<close> finds for a pattern with the \<open>g\<close> flag.\<close>

definition count_matches :: "rx \<Rightarrow> js_string \<Rightarrow> nat" where
  "count_matches r s = length (scan r s 0 0)"

text \<open>Matches (start, length) in increasing order, none starting inside the one before.\<close>

fun non_overlapping :: "(nat \<times> nat) list \<Rightarrow> bool" where
  "non_overlapping [] = True"
| "non_overlapping [m] = True"
| "non_overlapping ((i, n) # (j, l) # ms) =
     (i < j \<and> i + n \<le> j \<and> non_overlapping ((j, l) # ms))"

text \<open>The voice state of a member who is not a bot, in a guild, with or without a channel.\<close>

definition st :: "snowflake \<Rightarrow> snowflake \<Rightarrow> snowflake option \<Rightarrow> voice_state" where
  "st g u c = \<lparr>state_member = Some \<lparr>member_id = u, member_user_bot = Some False\<rparr>,
               state_guild = Some g, state_channel = c\<rparr>"

text \<open>A message of a user who is not a bot, in a guild, with two attachments and a given text.\<close>

definition example_message :: "js_string \<Rightarrow> message" where
  "example_message content =
     \<lparr>m_guild = Some ''g'', m_author = Some \<lparr>author_id = ''u'', author_bot = False\<rparr>,
       m_channel_id = ''c'', m_id = ''m1'', m_attachments_size = Some 2, m_content = content\<rparr>"

text \<open>A message of a given user, not a bot, in guild \<open>g\<close>, with a given id and no text.\<close>

definition example_message_of :: "snowflake \<Rightarrow> snowflake \<Rightarrow> message" where
  "example_message_of u i =
     \<lparr>m_guild = Some ''g'', m_author = Some \<lparr>author_id = u, author_bot = False\<rparr>,
       m_channel_id = ''c'', m_id = i, m_attachments_size = None, m_content = []\<rparr>"

text \<open>
  The durations of the pair add up, in absolute value, to \<open>2^53\<close> at most: then no
  running sum leaves the 64 bits and the total is an exact JavaScript number.
\<close>

definition voice_in_range :: "snowflake \<Rightarrow> snowflake \<Rightarrow> db \<Rightarrow> bool" where
  "voice_in_range g u d =
     (sum_list (map (\<lambda>r. \<bar>coalesce (duration_seconds r) 0\<bar>)
        (filter (\<lambda>r. vs_guild_id r = g \<and> vs_user_id r = u) (voice_sessions d))) \<le> 2 ^ 53)"

section \<open>Facts about the statements and the handler\<close>

lemma onVoiceUpdate_ignored:
  "event_pair oldState newState = None \<Longrightarrow> onVoiceUpdate oldState newState t1 t2 d = d"
  by (auto simp: onVoiceUpdate_def event_pair_def split: option.splits if_splits)

lemma onVoiceUpdate_join:
  "event_pair oldState newState = Some (g, u) \<Longrightarrow> state_channel oldState = None \<Longrightarrow>
   state_channel newState = Some c \<Longrightarrow>
   onVoiceUpdate oldState newState t1 t2 d = insertVoiceSession g u c t1 d"
  by (auto simp: onVoiceUpdate_def event_pair_def split: option.splits if_splits)

lemma onVoiceUpdate_leave:
  "event_pair oldState newState = Some (g, u) \<Longrightarrow> state_channel oldState = Some a \<Longrightarrow>
   state_channel newState = None \<Longrightarrow>
   onVoiceUpdate oldState newState t1 t2 d =
     (case selectOpenVoiceSession g u d of
        None \<Rightarrow> d
      | Some (i, j) \<Rightarrow> updateVoiceSessionLeave t1 (t1 - j) i d)"
  by (auto simp: onVoiceUpdate_def event_pair_def split: option.splits if_splits)

lemma onVoiceUpdate_switch:
  "event_pair oldState newState = Some (g, u) \<Longrightarrow> state_channel oldState = Some a \<Longrightarrow>
   state_channel newState = Some c \<Longrightarrow> a \<noteq> c \<Longrightarrow>
   onVoiceUpdate oldState newState t1 t2 d =
     (case selectOpenVoiceSession g u d of
        None \<Rightarrow> insertVoiceSession g u c t1 d
      | Some (i, j) \<Rightarrow> insertVoiceSession g u c t2 (updateVoiceSessionLeave t1 (t1 - j) i d))"
  by (auto simp: onVoiceUpdate_def event_pair_def split: option.splits if_splits)

lemma onVoiceUpdate_same:
  "state_channel oldState = state_channel newState \<Longrightarrow>
   onVoiceUpdate oldState newState t1 t2 d = d"
  by (simp add: onVoiceUpdate_def split: option.splits if_splits)

lemma latest_joined_None: "latest_joined rs = None \<longleftrightarrow> rs = []"
  by (cases rs) (auto split: option.splits)

lemma latest_joined_mem: "latest_joined rs = Some r \<Longrightarrow> r \<in> set rs"
  by (induction rs arbitrary: r) (auto split: option.splits if_splits)

lemma selectOpen_None:
  "selectOpenVoiceSession g u d = None \<longleftrightarrow> \<not> list_ex (is_open g u) (voice_sessions d)"
  by (auto simp: selectOpenVoiceSession_def latest_joined_None filter_empty_conv list_ex_iff)

lemma selectOpen_Some:
  "selectOpenVoiceSession g u d = Some (i, j) \<Longrightarrow>
   \<exists>r \<in> set (voice_sessions d). is_open g u r \<and> vs_id r = i \<and> joined_at r = j"
  by (auto simp: selectOpenVoiceSession_def dest!: latest_joined_mem)

lemma latest_joined_max:
  "latest_joined rs = Some b \<Longrightarrow> r \<in> set rs \<Longrightarrow> joined_at r \<le> joined_at b"
  by (induction rs arbitrary: b) (auto split: option.splits if_splits simp: latest_joined_None)

lemma selectOpenVoiceSession_latest:
  assumes "selectOpenVoiceSession g u d = Some (i, j)"
    and "r \<in> set (voice_sessions d)" and "is_open g u r"
  shows "joined_at r \<le> j"
proof -
  from assms(1) obtain b where b: "latest_joined (filter (is_open g u) (voice_sessions d)) = Some b"
    and j: "joined_at b = j"
    by (auto simp: selectOpenVoiceSession_def)
  from assms(2,3) have "r \<in> set (filter (is_open g u) (voice_sessions d))" by simp
  from latest_joined_max[OF b this] j show ?thesis by simp
qed

lemma open_count_insert:
  "open_count g u (insertVoiceSession g' u' c j d) =
     open_count g u d + (if g' = g \<and> u' = u then 1 else 0)"
  by (simp add: open_count_def insertVoiceSession_def is_open_def)

lemma filter_map_le:
  "(\<And>x. P (f x) \<Longrightarrow> P x) \<Longrightarrow> length (filter P (map f xs)) \<le> length (filter P xs)"
proof (induction xs)
  case Nil
  then show ?case by simp
next
  case (Cons x xs)
  then have "length (filter P (map f xs)) \<le> length (filter P xs)" by blast
  moreover have "P (f x) \<Longrightarrow> P x" using Cons.prems by blast
  ultimately show ?case by (auto simp del: length_filter_map)
qed

lemma filter_map_lt:
  assumes "\<And>x. P (f x) \<Longrightarrow> P x" and "r \<in> set xs" and "P r" and "\<not> P (f r)"
  shows "length (filter P (map f xs)) < length (filter P xs)"
  using assms(2)
proof (induction xs)
  case Nil
  then show ?case by simp
next
  case (Cons x xs)
  have le: "length (filter P (map f xs)) \<le> length (filter P xs)"
    using assms(1) by (rule filter_map_le)
  show ?case
  proof (cases "x = r")
    case True
    with le assms(3,4) show ?thesis by (simp del: length_filter_map)
  next
    case False
    with Cons have "length (filter P (map f xs)) < length (filter P xs)" by simp
    moreover have "P (f x) \<Longrightarrow> P x" using assms(1) by blast
    ultimately show ?thesis by (auto simp del: length_filter_map)
  qed
qed

lemma open_count_update_le:
  "open_count g u (updateVoiceSessionLeave l dur i d) \<le> open_count g u d"
  unfolding open_count_def updateVoiceSessionLeave_def
  by (simp del: length_filter_map, rule filter_map_le) (auto simp: is_open_def split: if_splits)

lemma open_count_close_lt:
  assumes "selectOpenVoiceSession g u d = Some (i, j)"
  shows "open_count g u (updateVoiceSessionLeave l dur i d) < open_count g u d"
proof -
  obtain r where r: "r \<in> set (voice_sessions d)" "is_open g u r" "vs_id r = i"
    using selectOpen_Some[OF assms] by blast
  have "length (filter (is_open g u)
          (map (\<lambda>r. if vs_id r = i then r\<lparr>left_at := Some l, duration_seconds := Some dur\<rparr> else r)
             (voice_sessions d)))
        < length (filter (is_open g u) (voice_sessions d))"
  proof (rule filter_map_lt[where r = r])
    show "r \<in> set (voice_sessions d)" by (rule r(1))
    show "is_open g u r" by (rule r(2))
    show "\<not> is_open g u (if vs_id r = i then r\<lparr>left_at := Some l, duration_seconds := Some dur\<rparr> else r)"
      using r(3) by (simp add: is_open_def)
    show "\<And>x. is_open g u (if vs_id x = i then x\<lparr>left_at := Some l, duration_seconds := Some dur\<rparr> else x)
              \<Longrightarrow> is_open g u x"
      by (auto simp: is_open_def split: if_splits)
  qed
  then show ?thesis by (simp add: open_count_def updateVoiceSessionLeave_def del: length_filter_map)
qed

lemma logMessageToDB_voice:
  "voice_sessions (fst (logMessageToDB message ts d)) = voice_sessions d"
  by (simp add: logMessageToDB_def insertMessage_def insertOrUpdateUser_def Let_def
        split: option.splits)

lemma open_count_zero: "open_count g u d = 0 \<longleftrightarrow> \<not> list_ex (is_open g u) (voice_sessions d)"
  by (auto simp: open_count_def filter_empty_conv list_ex_iff)

lemma messages_insertOrUpdateUser: "messages (insertOrUpdateUser g u ts d) = messages d"
  by (simp add: insertOrUpdateUser_def Let_def)

lemma messages_seq_insertOrUpdateUser:
  "messages_seq (insertOrUpdateUser g u ts d) = messages_seq d"
  by (simp add: insertOrUpdateUser_def Let_def)

lemma guild_users_insertMessage: "guild_users (insertMessage row d) = guild_users d"
  by (simp add: insertMessage_def Let_def)

lemma logMessageToDB_recorded:
  assumes "m_guild message = Some g" and "m_author message = Some a" and "\<not> author_bot a"
  shows "logMessageToDB message ts d =
     (insertMessage
        \<lparr>msg_id = 0, msg_guild_id = g, msg_channel_id = m_channel_id message,
          msg_user_id = author_id a, message_id = m_id message, created_at = ts,
          has_attachment = Some (case m_attachments_size message of
                                   None \<Rightarrow> 0 | Some n \<Rightarrow> if 0 < n then 1 else 0),
          attachment_count = Some (case m_attachments_size message of
                                     None \<Rightarrow> 0 | Some n \<Rightarrow> int n),
          x_link_count = Some (int (xCount (m_content message)))\<rparr>
        (insertOrUpdateUser g (author_id a) ts d), None)"
  using assms by (simp add: logMessageToDB_def Let_def)

lemma logMessageToDB_guild_users:
  "guild_users (fst (logMessageToDB message ts d)) = guild_users d
   \<or> (\<exists>g u. guild_users (fst (logMessageToDB message ts d)) =
              guild_users (insertOrUpdateUser g u ts d))"
  by (auto simp: logMessageToDB_def Let_def guild_users_insertMessage split: option.splits)

lemma onVoiceUpdate_guild_users:
  "guild_users (onVoiceUpdate oldState newState t1 t2 d) = guild_users d"
  by (simp add: onVoiceUpdate_def insertVoiceSession_def updateVoiceSessionLeave_def
        split: option.splits prod.splits)

lemma find_map_same:
  "(\<And>x. P (f x) = P x) \<Longrightarrow> find P (map f xs) = map_option f (find P xs)"
  by (induction xs) auto

lemma find_append_last:
  "find P (xs @ [y]) = (case find P xs of Some x \<Rightarrow> Some x | None \<Rightarrow> if P y then Some y else None)"
  by (induction xs) auto

lemma find_None_list_ex: "find P xs = None \<longleftrightarrow> \<not> list_ex P xs"
  by (auto simp: find_None_iff list_ex_iff)

lemma user_row_upsert_first_seen:
  assumes "user_row g' u' d = Some r"
  shows "\<exists>r'. user_row g' u' (insertOrUpdateUser g u ts d) = Some r'
              \<and> first_seen r' = first_seen r"
proof (cases "list_ex (is_user g u) (guild_users d)")
  case True
  have "find (is_user g' u') (map (\<lambda>r. if is_user g u r then r\<lparr>last_seen := ts\<rparr> else r) (guild_users d))
        = map_option (\<lambda>r. if is_user g u r then r\<lparr>last_seen := ts\<rparr> else r)
            (find (is_user g' u') (guild_users d))"
    by (rule find_map_same) (simp add: is_user_def)
  with True assms show ?thesis
    by (auto simp: user_row_def insertOrUpdateUser_def Let_def)
next
  case False
  with assms show ?thesis
    by (simp add: user_row_def insertOrUpdateUser_def Let_def find_append_last)
qed

lemma user_row_upsert_last_seen:
  "\<exists>r. user_row g u (insertOrUpdateUser g u ts d) = Some r \<and> last_seen r = ts"
proof (cases "list_ex (is_user g u) (guild_users d)")
  case True
  then obtain r0 where r0: "find (is_user g u) (guild_users d) = Some r0"
    using find_None_list_ex[of "is_user g u" "guild_users d"] by (cases "find (is_user g u) (guild_users d)") auto
  then have p: "is_user g u r0" by (auto simp: find_Some_iff)
  have "find (is_user g u) (map (\<lambda>r. if is_user g u r then r\<lparr>last_seen := ts\<rparr> else r) (guild_users d))
        = map_option (\<lambda>r. if is_user g u r then r\<lparr>last_seen := ts\<rparr> else r)
            (find (is_user g u) (guild_users d))"
    by (rule find_map_same) (simp add: is_user_def)
  with True r0 p show ?thesis
    by (simp add: user_row_def insertOrUpdateUser_def Let_def)
next
  case False
  then have "find (is_user g u) (guild_users d) = None" by (simp add: find_None_list_ex)
  with False show ?thesis
    by (simp add: user_row_def insertOrUpdateUser_def Let_def find_append_last is_user_def)
qed

lemma handle_first_seen:
  assumes "user_row g u d = Some r"
  shows "\<exists>r'. user_row g u (handle e d) = Some r' \<and> first_seen r' = first_seen r"
proof (cases e)
  case (MessageCreate message ts)
  from logMessageToDB_guild_users[of message ts d] show ?thesis
  proof
    assume "guild_users (fst (logMessageToDB message ts d)) = guild_users d"
    with assms MessageCreate show ?thesis by (simp add: user_row_def)
  next
    assume "\<exists>g u. guild_users (fst (logMessageToDB message ts d)) =
              guild_users (insertOrUpdateUser g u ts d)"
    then obtain g0 u0 where "guild_users (fst (logMessageToDB message ts d)) =
              guild_users (insertOrUpdateUser g0 u0 ts d)" by blast
    with user_row_upsert_first_seen[OF assms, of g0 u0 ts] MessageCreate show ?thesis
      by (simp add: user_row_def)
  qed
next
  case (VoiceStateUpdate oldState newState t1 t2)
  with assms show ?thesis by (simp add: user_row_def onVoiceUpdate_guild_users)
qed

lemma run_first_seen:
  assumes "user_row g u d = Some r"
  shows "\<exists>r'. user_row g u (run evs d) = Some r' \<and> first_seen r' = first_seen r"
  using assms
proof (induction evs arbitrary: d r)
  case Nil
  then show ?case by (simp add: run_def)
next
  case (Cons e es)
  from handle_first_seen[OF Cons.prems, of e]
  obtain r1 where r1: "user_row g u (handle e d) = Some r1" "first_seen r1 = first_seen r"
    by blast
  from Cons.IH[OF r1(1)] r1(2) show ?case by (simp add: run_def)
qed

lemma insertMessage_present:
  "list_ex (\<lambda>r. message_id r = message_id row) (messages (insertMessage row d))"
  by (simp add: insertMessage_def Let_def)

lemma insertMessage_distinct:
  "distinct (map message_id (messages d)) \<Longrightarrow>
   distinct (map message_id (messages (insertMessage row d)))"
  by (auto simp: insertMessage_def Let_def list_ex_iff)

lemma insertMessage_ignored:
  "list_ex (\<lambda>r. message_id r = message_id row) (messages d) \<Longrightarrow>
   insertMessage row d = d\<lparr>messages_seq := autoincrement (messages_seq d) (map msg_id (messages d))\<rparr>"
  by (simp add: insertMessage_def Let_def)

lemma insertMessage_ignored_messages:
  "list_ex (\<lambda>r. message_id r = message_id row) (messages d) \<Longrightarrow>
   messages (insertMessage row d) = messages d"
  by (simp add: insertMessage_ignored)

lemma ignored_insert_uses_a_rowid:
  "map msg_id (messages (run [MessageCreate (example_message_of ''u'' ''m1'') 10,
                              MessageCreate (example_message_of ''u'' ''m1'') 20,
                              MessageCreate (example_message_of ''u'' ''m2'') 30] empty_db)) = [1, 3]"
  by (simp add: run_def logMessageToDB_def example_message_of_def insertOrUpdateUser_def
        insertMessage_def Let_def empty_db_def autoincrement_def next_rowid_def xCount_def)

lemma count_key_one:
  "distinct (map f xs) \<Longrightarrow> list_ex (\<lambda>r. f r = k) xs \<Longrightarrow> length (filter (\<lambda>r. f r = k) xs) = 1"
proof (induction xs)
  case Nil
  then show ?case by simp
next
  case (Cons x xs)
  show ?case
  proof (cases "f x = k")
    case True
    have "f x \<notin> f ` set xs" using Cons.prems(1) by simp
    then have "\<And>r. r \<in> set xs \<Longrightarrow> f r \<noteq> k" using True by blast
    then have "filter (\<lambda>r. f r = k) xs = []"
      by (simp add: filter_empty_conv)
    with True show ?thesis by simp
  next
    case False
    with Cons show ?thesis by simp
  qed
qed

lemma abs_sum_list_map_le:
  "\<bar>sum_list (map f xs)\<bar> \<le> sum_list (map (\<lambda>x. \<bar>f x\<bar>) xs)" for f :: "'a \<Rightarrow> int"
  by (induction xs) auto

lemma sum_from_in_range:
  "\<bar>acc\<bar> + sum_list (map abs xs) \<le> 2 ^ 53 \<Longrightarrow> sum_from acc xs = Inr (acc + sum_list xs)"
proof (induction xs arbitrary: acc)
  case Nil
  then show ?case by simp
next
  case (Cons x xs)
  have small: "\<bar>acc + x\<bar> + sum_list (map abs xs) \<le> 2 ^ 53"
    using Cons.prems by simp
  have "0 \<le> sum_list (map abs xs)" by (induction xs) auto
  with small have "\<bar>acc + x\<bar> \<le> 2 ^ 53" by linarith
  then have "int64_range (acc + x)" by (simp add: int64_range_def abs_le_iff)
  with Cons.IH[OF small] show ?case by (simp add: add.assoc)
qed

lemma map_filter_values:
  "sum_list (List.map_filter (\<lambda>v. v) vs) = sum_list (map (\<lambda>v. coalesce v 0) vs)"
  "sum_list (map abs (List.map_filter (\<lambda>v. v) vs)) = sum_list (map (\<lambda>v. \<bar>coalesce v 0\<bar>) vs)"
  by (induction vs) (auto simp: List.map_filter_simps coalesce_def split: option.splits)

lemma sql_sum_in_range:
  assumes "sum_list (map (\<lambda>v. \<bar>coalesce v 0\<bar>) vs) \<le> 2 ^ 53"
  shows "\<exists>v. sql_sum vs = Inr v \<and> coalesce v 0 = sum_list (map (\<lambda>v. coalesce v 0) vs)"
proof (cases "List.map_filter (\<lambda>v. v) vs")
  case Nil
  then show ?thesis
    using map_filter_values(1)[of vs] by (simp add: sql_sum_def coalesce_def)
next
  case (Cons x xs)
  have "\<bar>0\<bar> + sum_list (map abs (x # xs)) \<le> (2 ^ 53 :: int)"
    using assms map_filter_values(2)[of vs] Cons by simp
  then have "sum_from 0 (x # xs) = Inr (0 + sum_list (x # xs))"
    by (rule sum_from_in_range)
  then show ?thesis
    using map_filter_values(1)[of vs] Cons by (simp add: sql_sum_def coalesce_def)
qed

lemma sql_sum_Nil: "sql_sum [] = Inr None"
  by (simp add: sql_sum_def List.map_filter_simps)

lemma bit_length_le: "bit_length n \<le> k \<longleftrightarrow> n < 2 ^ k"
proof (induction k arbitrary: n)
  case 0
  show ?case by (subst bit_length.simps) auto
next
  case (Suc k)
  show ?case
  proof (cases "n \<le> 0")
    case True
    have "(0::int) < 2 ^ Suc k" by simp
    with True have "n < 2 ^ Suc k" by linarith
    with True show ?thesis by (subst bit_length.simps) simp
  next
    case False
    have "n div 2 < 2 ^ k \<longleftrightarrow> n < 2 * 2 ^ k" by linarith
    with False Suc[of "n div 2"] show ?thesis by (subst bit_length.simps) simp
  qed
qed

lemma to_number_exact: "\<bar>x\<bar> \<le> 2 ^ 53 \<Longrightarrow> to_number x = x"
proof (cases "\<bar>x\<bar> < 2 ^ 53")
  case True
  then have "bit_length \<bar>x\<bar> \<le> 53" by (simp add: bit_length_le)
  then show ?thesis by (simp add: to_number_def Let_def)
next
  case False
  assume "\<bar>x\<bar> \<le> 2 ^ 53"
  with False have m: "\<bar>x\<bar> = 2 ^ 53" by simp
  have "bit_length (2 ^ 53) \<le> 54" by (simp add: bit_length_le)
  moreover have "\<not> bit_length (2 ^ 53) \<le> 53" by (simp add: bit_length_le)
  ultimately have b: "bit_length (2 ^ 53) = 54" by simp
  have "x = 2 ^ 53 \<or> x = - (2 ^ 53)" using m by linarith
  then show ?thesis
    using b by (auto simp: to_number_def Let_def)
qed

lemma bit_length_eq: "2 ^ k \<le> n \<Longrightarrow> n < 2 ^ Suc k \<Longrightarrow> bit_length n = Suc k"
proof -
  assume a: "2 ^ k \<le> n" and b: "n < 2 ^ Suc k"
  from b have "bit_length n \<le> Suc k" by (simp only: bit_length_le)
  moreover from a have "\<not> bit_length n \<le> k" by (simp add: bit_length_le)
  ultimately show ?thesis by simp
qed

lemma to_number_examples:
  "to_number (2 ^ 53 + 1) = 2 ^ 53"
  "to_number (2 ^ 53 + 2) = 2 ^ 53 + 2"
  "to_number (2 ^ 53 + 3) = 2 ^ 53 + 4"
  "to_number (- (2 ^ 53 + 3)) = - (2 ^ 53 + 4)"
  "to_number (2 ^ 62 + 2 ^ 9) = 2 ^ 62"
  "to_number (2 ^ 62 + 3 * 2 ^ 9) = 2 ^ 62 + 2 ^ 11"
  "to_number (2 ^ 63 - 1) = 2 ^ 63"
proof -
  have b54: "bit_length n = 54" if "2 ^ 53 \<le> n" "n < 2 ^ 54" for n
    using that bit_length_eq[of 53 n] by simp
  have b63: "bit_length n = 63" if "2 ^ 62 \<le> n" "n < 2 ^ 63" for n
    using that bit_length_eq[of 62 n] by simp
  show "to_number (2 ^ 53 + 1) = 2 ^ 53"
    by (simp add: to_number_def Let_def b54)
  show "to_number (2 ^ 53 + 2) = 2 ^ 53 + 2"
    by (simp add: to_number_def Let_def b54)
  show "to_number (2 ^ 53 + 3) = 2 ^ 53 + 4"
    by (simp add: to_number_def Let_def b54)
  show "to_number (- (2 ^ 53 + 3)) = - (2 ^ 53 + 4)"
    by (simp add: to_number_def Let_def b54)
  show "to_number (2 ^ 62 + 2 ^ 9) = 2 ^ 62"
    by (simp add: to_number_def Let_def b63)
  show "to_number (2 ^ 62 + 3 * 2 ^ 9) = 2 ^ 62 + 2 ^ 11"
    by (simp add: to_number_def Let_def b63)
  show "to_number (2 ^ 63 - 1) = 2 ^ 63"
    by (simp add: to_number_def Let_def b63)
qed

lemma closed_rows_sum:
  "list_all (\<lambda>r. left_at r = None \<longrightarrow> duration_seconds r = None) rs \<Longrightarrow>
   sum_list (map (\<lambda>r. coalesce (duration_seconds r) 0) (filter P rs)) =
   sum_list (map (\<lambda>r. coalesce (duration_seconds r) 0) (filter (\<lambda>r. P r \<and> left_at r \<noteq> None) rs))"
  by (induction rs) (auto simp: coalesce_def)

lemma voiceRow_closed_total:
  assumes "open_without_duration d" and "voice_in_range g u d"
  shows "voiceRow g u d = Inr (closed_total g u d)"
proof -
  let ?rows = "filter (\<lambda>r. vs_guild_id r = g \<and> vs_user_id r = u) (voice_sessions d)"
  have bound: "sum_list (map (\<lambda>v. \<bar>coalesce v 0\<bar>) (map duration_seconds ?rows)) \<le> 2 ^ 53"
    using assms(2) by (simp add: voice_in_range_def comp_def)
  from sql_sum_in_range[OF bound]
  obtain v where v: "sql_sum (map duration_seconds ?rows) = Inr v"
    and cv: "coalesce v 0 = sum_list (map (\<lambda>r. coalesce (duration_seconds r) 0) ?rows)"
    by (auto simp: comp_def)
  have "\<bar>sum_list (map (\<lambda>r. coalesce (duration_seconds r) 0) ?rows)\<bar>
        \<le> sum_list (map (\<lambda>r. \<bar>coalesce (duration_seconds r) 0\<bar>) ?rows)"
    by (rule abs_sum_list_map_le)
  with bound have small: "\<bar>coalesce v 0\<bar> \<le> 2 ^ 53" by (simp add: cv comp_def)
  have "sum_list (map (\<lambda>r. coalesce (duration_seconds r) 0) ?rows) =
        sum_list (map (\<lambda>r. coalesce (duration_seconds r) 0)
          (filter (\<lambda>r. (vs_guild_id r = g \<and> vs_user_id r = u) \<and> left_at r \<noteq> None)
             (voice_sessions d)))"
    using assms(1) unfolding open_without_duration_def by (rule closed_rows_sum)
  then have "coalesce v 0 = closed_total g u d"
    by (simp add: cv closed_total_def conj_assoc)
  with small show ?thesis
    by (simp add: voiceRow_def Let_def v to_number_exact)
qed

lemma voice_sum_overflow:
  "voiceRow ''g'' ''u''
     \<lparr>guild_users = [], guild_users_seq = 0, messages = [], messages_seq = 0,
       voice_sessions =
         [\<lparr>vs_id = 1, vs_guild_id = ''g'', vs_user_id = ''u'', vs_channel_id = ''A'',
           joined_at = 0, left_at = Some (2 ^ 62), duration_seconds = Some (2 ^ 62)\<rparr>,
          \<lparr>vs_id = 2, vs_guild_id = ''g'', vs_user_id = ''u'', vs_channel_id = ''A'',
           joined_at = 0, left_at = Some (2 ^ 62), duration_seconds = Some (2 ^ 62)\<rparr>]\<rparr>
   = Inl IntegerOverflow"
  by (simp add: voiceRow_def sql_sum_def List.map_filter_simps int64_range_def)

lemma open_without_duration_handle:
  assumes "open_without_duration d"
  shows "open_without_duration (handle e d)"
proof (cases e)
  case (MessageCreate message ts)
  with assms show ?thesis by (simp add: open_without_duration_def logMessageToDB_voice)
next
  case (VoiceStateUpdate oldState newState t1 t2)
  have ins: "open_without_duration (insertVoiceSession g u c j x)"
    if "open_without_duration x" for g u c j x
    using that by (simp add: open_without_duration_def insertVoiceSession_def)
  have upd: "open_without_duration (updateVoiceSessionLeave l dur i x)"
    if "open_without_duration x" for l dur i x
    using that by (auto simp: open_without_duration_def updateVoiceSessionLeave_def list_all_iff)
  show ?thesis
    using assms ins upd
    by (auto simp: VoiceStateUpdate onVoiceUpdate_def split: option.splits)
qed

lemma open_without_duration_run:
  "open_without_duration d \<Longrightarrow> open_without_duration (run evs d)"
  by (induction evs arbitrary: d) (simp_all add: run_def open_without_duration_handle)

lemmas rx_eval = X_LINK_REGEX_def lits_def utf16_def canonicalize_def
  is_space_def is_line_terminator_def

lemma X_LINK_REGEX_empty: "rmatch X_LINK_REGEX [] = []"
  by (simp add: rx_eval)

lemma xCount_count_matches: "xCount content = count_matches X_LINK_REGEX content"
proof (cases "content = []")
  case True
  then show ?thesis by (simp add: xCount_def count_matches_def X_LINK_REGEX_empty)
next
  case False
  then show ?thesis
    by (cases "scan X_LINK_REGEX content 0 0") (simp_all add: xCount_def count_matches_def js_match_def)
qed

lemma X_LINK_REGEX_examples:
  "xCount (utf16 ''x.com/ab'') = 1"
  "xCount (utf16 ''TwItTeR.cOm/ab'') = 1"
  "xCount (utf16 ''HTTPS://WWW.T.CO/ab'') = 1"
  "xCount (utf16 ''http://x.com/ab'') = 1"
  "xCount (utf16 ''x.com/a'') = 0"
  "xCount (utf16 ''x.com/.ab'') = 0"
  "xCount (utf16 ''github.com/ab'') = 0"
  "xCount (utf16 ''x.com/ab,x.com/cd'') = 1"
  "xCount (utf16 ''x.com/ab x.com/cd'') = 2"
  by (simp_all add: xCount_def js_match_def rx_eval)

lemma scan_starts:
  "(j, n) \<in> set (scan r s i k) \<Longrightarrow> i + k \<le> j"
proof (induction s arbitrary: i k)
  case Nil
  then show ?case by (auto split: if_splits list.splits)
next
  case (Cons c cs)
  show ?case
  proof (cases "0 < k")
    case True
    with Cons.prems have "(j, n) \<in> set (scan r cs (i + 1) (k - 1))" by simp
    from Cons.IH[OF this] True show ?thesis by simp
  next
    case False
    show ?thesis
    proof (cases "rmatch r (c # cs)")
      case Nil
      with False Cons.prems have "(j, n) \<in> set (scan r cs (i + 1) 0)" by simp
      from Cons.IH[OF this] False show ?thesis by simp
    next
      case hit: (Cons s' rest)
      with False Cons.prems
      have "(j, n) = (i, length (c # cs) - length s')
            \<or> (j, n) \<in> set (scan r cs (i + 1) (length (c # cs) - length s' - 1))"
        by simp
      then show ?thesis
      proof
        assume "(j, n) = (i, length (c # cs) - length s')"
        with False show ?thesis by simp
      next
        assume "(j, n) \<in> set (scan r cs (i + 1) (length (c # cs) - length s' - 1))"
        from Cons.IH[OF this] False show ?thesis by simp
      qed
    qed
  qed
qed

lemma non_overlapping_Cons:
  "non_overlapping ms \<Longrightarrow> (\<forall>(j, l) \<in> set ms. i < j \<and> i + n \<le> j) \<Longrightarrow>
   non_overlapping ((i, n) # ms)"
  by (cases ms) auto

lemma scan_non_overlapping: "non_overlapping (scan r s i k)"
proof (induction s arbitrary: i k)
  case Nil
  then show ?case by (simp split: list.splits)
next
  case (Cons c cs)
  show ?case
  proof (cases "0 < k")
    case True
    then show ?thesis using Cons.IH by simp
  next
    case False
    show ?thesis
    proof (cases "rmatch r (c # cs)")
      case Nil
      with False show ?thesis using Cons.IH by simp
    next
      case hit: (Cons s' rest)
      let ?n = "length (c # cs) - length s'"
      have "non_overlapping ((i, ?n) # scan r cs (i + 1) (?n - 1))"
      proof (rule non_overlapping_Cons)
        show "non_overlapping (scan r cs (i + 1) (?n - 1))" by (rule Cons.IH)
        show "\<forall>(j, l) \<in> set (scan r cs (i + 1) (?n - 1)). i < j \<and> i + ?n \<le> j"
        proof (clarify)
          fix j l assume "(j, l) \<in> set (scan r cs (i + 1) (?n - 1))"
          from scan_starts[OF this] show "i < j \<and> i + ?n \<le> j" by arith
        qed
      qed
      with False hit show ?thesis by simp
    qed
  qed
qed

lemma scan_sound:
  "(j, n) \<in> set (scan r s i k) \<Longrightarrow>
   i \<le> j \<and> (\<exists>s' rest. rmatch r (drop (j - i) s) = s' # rest
                     \<and> n = length (drop (j - i) s) - length s')"
proof (induction s arbitrary: i k)
  case Nil
  then show ?case by (cases "rmatch r []") (auto split: if_splits)
next
  case (Cons c cs)
  have later: "i \<le> j \<and> (\<exists>s' rest. rmatch r (drop (j - i) (c # cs)) = s' # rest
                     \<and> n = length (drop (j - i) (c # cs)) - length s')"
    if "(j, n) \<in> set (scan r cs (i + 1) k')" for k'
  proof -
    from Cons.IH[OF that] have le: "i + 1 \<le> j"
      and ex: "\<exists>s' rest. rmatch r (drop (j - (i + 1)) cs) = s' # rest
                     \<and> n = length (drop (j - (i + 1)) cs) - length s'"
      by blast+
    from le have "j - i = Suc (j - (i + 1))" by arith
    then have "drop (j - i) (c # cs) = drop (j - (i + 1)) cs" by simp
    with le ex show ?thesis by simp
  qed
  show ?case
  proof (cases "0 < k")
    case True
    with Cons.prems have "(j, n) \<in> set (scan r cs (i + 1) (k - 1))" by simp
    then show ?thesis by (rule later)
  next
    case False
    show ?thesis
    proof (cases "rmatch r (c # cs)")
      case Nil
      with False Cons.prems have "(j, n) \<in> set (scan r cs (i + 1) 0)" by simp
      then show ?thesis by (rule later)
    next
      case hit: (Cons s' rest)
      with False Cons.prems
      have "(j, n) = (i, length (c # cs) - length s')
            \<or> (j, n) \<in> set (scan r cs (i + 1) (length (c # cs) - length s' - 1))"
        by simp
      then show ?thesis
      proof
        assume "(j, n) = (i, length (c # cs) - length s')"
        with hit show ?thesis by simp
      next
        assume "(j, n) \<in> set (scan r cs (i + 1) (length (c # cs) - length s' - 1))"
        then show ?thesis by (rule later)
      qed
    qed
  qed
qed


lemma onVoiceUpdate_open_count:
  assumes inv: "\<forall>g u. open_count g u d \<le> 1"
    and fresh: "case join_target (VoiceStateUpdate oldState newState t1 t2) of
                  None \<Rightarrow> True | Some (g, u) \<Rightarrow> open_count g u d = 0"
  shows "open_count g u (onVoiceUpdate oldState newState t1 t2 d) \<le> 1"
proof (cases "event_pair oldState newState")
  case None
  then show ?thesis using inv by (simp add: onVoiceUpdate_ignored)
next
  case (Some p)
  obtain g' u' where p: "event_pair oldState newState = Some (g', u')"
    using Some by (cases p) simp
  have base: "open_count g u d \<le> 1" using inv by blast
  show ?thesis
  proof (cases "state_channel oldState")
    case None
    note old = this
    show ?thesis
    proof (cases "state_channel newState")
      case None
      with old show ?thesis using base by (simp add: onVoiceUpdate_same)
    next
      case (Some c)
      from fresh old Some p have "open_count g' u' d = 0" by simp
      with base show ?thesis
        by (auto simp: onVoiceUpdate_join[OF p old Some] open_count_insert)
    qed
  next
    case (Some a)
    note old = this
    show ?thesis
    proof (cases "state_channel newState")
      case None
      show ?thesis
      proof (cases "selectOpenVoiceSession g' u' d")
        case None
        with base show ?thesis by (simp add: onVoiceUpdate_leave[OF p old \<open>state_channel newState = None\<close>])
      next
        case (Some ij)
        obtain i j where ij: "selectOpenVoiceSession g' u' d = Some (i, j)"
          using Some by (cases ij) simp
        have "open_count g u (updateVoiceSessionLeave t1 (t1 - j) i d) \<le> open_count g u d"
          by (rule open_count_update_le)
        with base show ?thesis
          by (simp add: onVoiceUpdate_leave[OF p old None] ij)
      qed
    next
      case (Some c)
      note new = this
      show ?thesis
      proof (cases "a = c")
        case True
        with old new base show ?thesis by (simp add: onVoiceUpdate_same)
      next
        case False
        show ?thesis
        proof (cases "selectOpenVoiceSession g' u' d")
          case None
          then have "open_count g' u' d = 0" by (simp add: open_count_zero selectOpen_None)
          with base None show ?thesis
            by (auto simp: onVoiceUpdate_switch[OF p old new False] open_count_insert)
        next
          case (Some ij)
          obtain i j where ij: "selectOpenVoiceSession g' u' d = Some (i, j)"
            using Some by (cases ij) simp
          have "open_count g' u' (updateVoiceSessionLeave t1 (t1 - j) i d) < open_count g' u' d"
            using ij by (rule open_count_close_lt)
          moreover have "open_count g' u' d \<le> 1" using inv by blast
          ultimately have z: "open_count g' u' (updateVoiceSessionLeave t1 (t1 - j) i d) = 0"
            by simp
          have le: "open_count g u (updateVoiceSessionLeave t1 (t1 - j) i d) \<le> 1"
            using base open_count_update_le[of g u t1 "t1 - j" i d] by simp
          show ?thesis
            using z le by (auto simp: onVoiceUpdate_switch[OF p old new False] ij open_count_insert)
        qed
      qed
    qed
  qed
qed

lemma handle_open_count:
  assumes "\<forall>g u. open_count g u d \<le> 1"
    and "case join_target e of None \<Rightarrow> True | Some (g, u) \<Rightarrow> open_count g u d = 0"
  shows "open_count g u (handle e d) \<le> 1"
proof (cases e)
  case (MessageCreate message ts)
  then show ?thesis using assms(1) by (simp add: open_count_def logMessageToDB_voice)
next
  case (VoiceStateUpdate oldState newState t1 t2)
  then show ?thesis using onVoiceUpdate_open_count[OF assms(1)] assms(2) by simp
qed

section \<open>C1: open sessions per pair\<close>

text \<open>
  C1 (as amended). Start from a store in which every (guild, user) pair has at most one
  open session, and process any sequence of events in which no join arrives for a pair
  that has an open session at that moment. Then after every prefix of the sequence every
  pair has at most one row with \<open>left_at = NULL\<close>. Leave and switch events, events
  that are ignored and message events need no condition.
\<close>

theorem at_most_one_open_session:
  assumes "\<forall>g u. open_count g u d \<le> 1" and "joins_fresh evs d"
  shows "\<forall>n g u. open_count g u (run (take n evs) d) \<le> 1"
  using assms
proof (induction evs arbitrary: d)
  case Nil
  then show ?case by (simp add: run_def)
next
  case (Cons e es)
  have step: "\<forall>g u. open_count g u (handle e d) \<le> 1"
    using handle_open_count[OF Cons.prems(1)] Cons.prems(2) by simp
  have rest: "\<forall>n g u. open_count g u (run (take n es) (handle e d)) \<le> 1"
    using Cons.IH[OF step] Cons.prems(2) by simp
  show ?case
  proof (intro allI)
    fix n g u
    show "open_count g u (run (take n (e # es)) d) \<le> 1"
    proof (cases n)
      case 0
      then show ?thesis using Cons.prems(1) by (simp add: run_def)
    next
      case (Suc m)
      then show ?thesis using rest by (simp add: run_def)
    qed
  qed
qed

text \<open>
  C1 as stated fails: the join branch inserts without looking for an open session, so two
  joins in a row for one pair leave two open sessions.
\<close>

theorem two_joins_two_open_sessions:
  "\<not> open_count ''g'' ''u''
       (run [VoiceStateUpdate (st ''g'' ''u'' None) (st ''g'' ''u'' (Some ''A'')) 1000 1000,
             VoiceStateUpdate (st ''g'' ''u'' None) (st ''g'' ''u'' (Some ''A'')) 1500 1500] empty_db) \<le> 1"
  by (simp add: run_def st_def onVoiceUpdate_def nullish_def insertVoiceSession_def empty_db_def
        open_count_def is_open_def next_rowid_def)

theorem at_most_one_open_session_witness:
  "(\<forall>g u. open_count g u empty_db \<le> 1)
   \<and> joins_fresh
        [VoiceStateUpdate (st ''g'' ''u'' None) (st ''g'' ''u'' (Some ''A'')) 1000 1000,
         VoiceStateUpdate (st ''g'' ''u'' (Some ''A'')) (st ''g'' ''u'' (Some ''B'')) 1500 1500,
         VoiceStateUpdate (st ''g'' ''u'' (Some ''B'')) (st ''g'' ''u'' None) 1800 1800] empty_db
   \<and> open_count ''g'' ''u''
        (run (take 2
          [VoiceStateUpdate (st ''g'' ''u'' None) (st ''g'' ''u'' (Some ''A'')) 1000 1000,
           VoiceStateUpdate (st ''g'' ''u'' (Some ''A'')) (st ''g'' ''u'' (Some ''B'')) 1500 1500,
           VoiceStateUpdate (st ''g'' ''u'' (Some ''B'')) (st ''g'' ''u'' None) 1800 1800])
          empty_db) \<le> 1"
proof -
  have h1: "\<forall>g u. open_count g u empty_db \<le> 1"
    by (simp add: open_count_def empty_db_def)
  have h2: "joins_fresh
        [VoiceStateUpdate (st ''g'' ''u'' None) (st ''g'' ''u'' (Some ''A'')) 1000 1000,
         VoiceStateUpdate (st ''g'' ''u'' (Some ''A'')) (st ''g'' ''u'' (Some ''B'')) 1500 1500,
         VoiceStateUpdate (st ''g'' ''u'' (Some ''B'')) (st ''g'' ''u'' None) 1800 1800] empty_db"
    by (simp add: st_def event_pair_def nullish_def open_count_def empty_db_def)
  show ?thesis
    using h1 h2 at_most_one_open_session[OF h1 h2] by blast
qed


section \<open>C6: a leave without an open session\<close>

text \<open>
  C6. A leave transition (old channel some, new channel none) for a pair that has no open
  session returns the store as it was: no row is created and none is modified. The
  handler is a total function of the store, so nothing propagates either.
\<close>

theorem leave_without_open_session_is_dropped:
  assumes "state_channel oldState = Some a" and "state_channel newState = None"
    and "event_pair oldState newState = Some (g, u)"
    and "\<not> list_ex (is_open g u) (voice_sessions d)"
  shows "onVoiceUpdate oldState newState t1 t2 d = d"
proof -
  have "selectOpenVoiceSession g u d = None"
    using assms(4) by (simp add: selectOpen_None)
  then show ?thesis
    using assms(1-3) by (simp add: onVoiceUpdate_leave)
qed

theorem leave_without_open_session_is_dropped_witness:
  "state_channel (st ''g'' ''u'' (Some ''A'')) = Some ''A''
   \<and> state_channel (st ''g'' ''u'' None) = None
   \<and> event_pair (st ''g'' ''u'' (Some ''A'')) (st ''g'' ''u'' None) = Some (''g'', ''u'')
   \<and> \<not> list_ex (is_open ''g'' ''u'') (voice_sessions empty_db)
   \<and> onVoiceUpdate (st ''g'' ''u'' (Some ''A'')) (st ''g'' ''u'' None) 1800 1800 empty_db = empty_db"
proof -
  have h1: "state_channel (st ''g'' ''u'' (Some ''A'')) = Some ''A''" by (simp add: st_def)
  have h2: "state_channel (st ''g'' ''u'' None) = None" by (simp add: st_def)
  have h3: "event_pair (st ''g'' ''u'' (Some ''A'')) (st ''g'' ''u'' None) = Some (''g'', ''u'')"
    by (simp add: st_def event_pair_def nullish_def)
  have h4: "\<not> list_ex (is_open ''g'' ''u'') (voice_sessions empty_db)"
    by (simp add: empty_db_def)
  show ?thesis
    using h1 h2 h3 h4 leave_without_open_session_is_dropped[OF h1 h2 h3 h4] by blast
qed

section \<open>C10: a join does not look for an open session\<close>

text \<open>
  C10. A join transition (old channel none, new channel some) appends one row with
  \<open>left_at = NULL\<close> whatever the table holds, so the pair has one more open session than
  before; when it had an open session already it now has two or more (two exactly when it
  had one).
\<close>

theorem join_inserts_unconditionally:
  assumes "state_channel oldState = None" and "state_channel newState = Some c"
    and "event_pair oldState newState = Some (g, u)"
  shows "voice_sessions (onVoiceUpdate oldState newState t1 t2 d) =
           voice_sessions d @
             [\<lparr>vs_id = next_rowid (map vs_id (voice_sessions d)),
               vs_guild_id = g, vs_user_id = u, vs_channel_id = c,
               joined_at = t1, left_at = None, duration_seconds = None\<rparr>]
         \<and> open_count g u (onVoiceUpdate oldState newState t1 t2 d) = open_count g u d + 1
         \<and> (list_ex (is_open g u) (voice_sessions d) \<longrightarrow>
              2 \<le> open_count g u (onVoiceUpdate oldState newState t1 t2 d))"
proof -
  have eq: "onVoiceUpdate oldState newState t1 t2 d = insertVoiceSession g u c t1 d"
    using assms by (simp add: onVoiceUpdate_join)
  have "list_ex (is_open g u) (voice_sessions d) \<Longrightarrow> 1 \<le> open_count g u d"
    using open_count_zero[of g u d] by simp
  then show ?thesis
    unfolding eq by (auto simp: open_count_insert) (simp add: insertVoiceSession_def)
qed

theorem join_inserts_unconditionally_witness:
  "state_channel (st ''g'' ''u'' None) = None
   \<and> state_channel (st ''g'' ''u'' (Some ''B'')) = Some ''B''
   \<and> event_pair (st ''g'' ''u'' None) (st ''g'' ''u'' (Some ''B'')) = Some (''g'', ''u'')
   \<and> list_ex (is_open ''g'' ''u'') (voice_sessions (insertVoiceSession ''g'' ''u'' ''A'' 1000 empty_db))
   \<and> open_count ''g'' ''u''
        (onVoiceUpdate (st ''g'' ''u'' None) (st ''g'' ''u'' (Some ''B'')) 1500 1500
           (insertVoiceSession ''g'' ''u'' ''A'' 1000 empty_db)) = 2"
proof -
  have h1: "state_channel (st ''g'' ''u'' None) = None" by (simp add: st_def)
  have h2: "state_channel (st ''g'' ''u'' (Some ''B'')) = Some ''B''" by (simp add: st_def)
  have h3: "event_pair (st ''g'' ''u'' None) (st ''g'' ''u'' (Some ''B'')) = Some (''g'', ''u'')"
    by (simp add: st_def event_pair_def nullish_def)
  have h4: "list_ex (is_open ''g'' ''u'')
              (voice_sessions (insertVoiceSession ''g'' ''u'' ''A'' 1000 empty_db))"
    by (simp add: insertVoiceSession_def empty_db_def is_open_def)
  have h5: "open_count ''g'' ''u'' (insertVoiceSession ''g'' ''u'' ''A'' 1000 empty_db) = 1"
    by (simp add: insertVoiceSession_def empty_db_def is_open_def open_count_def)
  show ?thesis
    using h1 h2 h3 h4 h5
      join_inserts_unconditionally[OF h1 h2 h3, of 1500 1500
        "insertVoiceSession ''g'' ''u'' ''A'' 1000 empty_db"]
    by simp
qed

section \<open>C3: a switch closes, then opens\<close>

text \<open>
  C3. A switch (old channel \<open>a\<close>, new channel \<open>c\<close>, \<open>a \<noteq> c\<close>) for a pair with an open
  session first runs the update that closes the selected session, at the first clock
  reading, and then the insert of the new session, at the second: the result is the old
  table with the close applied, followed by the new row, which is open. And from the empty
  store, join on \<open>A\<close> at 1000, switch to \<open>B\<close> at 1500, leave at 1800 ends with exactly two
  rows, both closed: \<open>A\<close> with duration 500 and \<open>B\<close> with duration 300.
\<close>

theorem switch_closes_then_opens:
  assumes "state_channel oldState = Some a" and "state_channel newState = Some c"
    and "a \<noteq> c" and "event_pair oldState newState = Some (g, u)"
    and "selectOpenVoiceSession g u d = Some (i, j)"
    and "A \<noteq> B"
  shows "onVoiceUpdate oldState newState t1 t2 d =
           insertVoiceSession g u c t2 (updateVoiceSessionLeave t1 (t1 - j) i d)
         \<and> voice_sessions (onVoiceUpdate oldState newState t1 t2 d) =
             map (\<lambda>r. if vs_id r = i
                       then r\<lparr>left_at := Some t1, duration_seconds := Some (t1 - j)\<rparr> else r)
               (voice_sessions d) @
             [\<lparr>vs_id = next_rowid (map vs_id (voice_sessions d)),
               vs_guild_id = g, vs_user_id = u, vs_channel_id = c,
               joined_at = t2, left_at = None, duration_seconds = None\<rparr>]
         \<and> voice_sessions
             (run [VoiceStateUpdate (st G U None) (st G U (Some A)) 1000 1000,
                   VoiceStateUpdate (st G U (Some A)) (st G U (Some B)) 1500 1500,
                   VoiceStateUpdate (st G U (Some B)) (st G U None) 1800 1800] empty_db) =
             [\<lparr>vs_id = 1, vs_guild_id = G, vs_user_id = U, vs_channel_id = A,
               joined_at = 1000, left_at = Some 1500, duration_seconds = Some 500\<rparr>,
              \<lparr>vs_id = 2, vs_guild_id = G, vs_user_id = U, vs_channel_id = B,
               joined_at = 1500, left_at = Some 1800, duration_seconds = Some 300\<rparr>]"
proof -
  have eq: "onVoiceUpdate oldState newState t1 t2 d =
           insertVoiceSession g u c t2 (updateVoiceSessionLeave t1 (t1 - j) i d)"
    using assms(1-5) by (simp add: onVoiceUpdate_switch)
  have ids: "map (vs_id \<circ> (\<lambda>r. if vs_id r = i
                       then r\<lparr>left_at := Some t1, duration_seconds := Some (t1 - j)\<rparr> else r))
               (voice_sessions d) = map vs_id (voice_sessions d)"
    by (rule map_cong) auto
  have rows: "voice_sessions (insertVoiceSession g u c t2 (updateVoiceSessionLeave t1 (t1 - j) i d)) =
             map (\<lambda>r. if vs_id r = i
                       then r\<lparr>left_at := Some t1, duration_seconds := Some (t1 - j)\<rparr> else r)
               (voice_sessions d) @
             [\<lparr>vs_id = next_rowid (map vs_id (voice_sessions d)),
               vs_guild_id = g, vs_user_id = u, vs_channel_id = c,
               joined_at = t2, left_at = None, duration_seconds = None\<rparr>]"
    by (simp add: insertVoiceSession_def updateVoiceSessionLeave_def ids)
  have scen: "voice_sessions
             (run [VoiceStateUpdate (st G U None) (st G U (Some A)) 1000 1000,
                   VoiceStateUpdate (st G U (Some A)) (st G U (Some B)) 1500 1500,
                   VoiceStateUpdate (st G U (Some B)) (st G U None) 1800 1800] empty_db) =
             [\<lparr>vs_id = 1, vs_guild_id = G, vs_user_id = U, vs_channel_id = A,
               joined_at = 1000, left_at = Some 1500, duration_seconds = Some 500\<rparr>,
              \<lparr>vs_id = 2, vs_guild_id = G, vs_user_id = U, vs_channel_id = B,
               joined_at = 1500, left_at = Some 1800, duration_seconds = Some 300\<rparr>]"
    using \<open>A \<noteq> B\<close>
    by (simp add: run_def st_def onVoiceUpdate_def nullish_def insertVoiceSession_def
          updateVoiceSessionLeave_def selectOpenVoiceSession_def is_open_def empty_db_def
          next_rowid_def)
  show ?thesis using eq rows scen by simp
qed

theorem switch_closes_then_opens_witness:
  "state_channel (st ''g'' ''u'' (Some ''A'')) = Some ''A''
   \<and> state_channel (st ''g'' ''u'' (Some ''B'')) = Some ''B''
   \<and> ''A'' \<noteq> ''B''
   \<and> event_pair (st ''g'' ''u'' (Some ''A'')) (st ''g'' ''u'' (Some ''B'')) = Some (''g'', ''u'')
   \<and> selectOpenVoiceSession ''g'' ''u'' (insertVoiceSession ''g'' ''u'' ''A'' 1000 empty_db)
       = Some (1, 1000)
   \<and> voice_sessions
        (onVoiceUpdate (st ''g'' ''u'' (Some ''A'')) (st ''g'' ''u'' (Some ''B'')) 1500 1501
           (insertVoiceSession ''g'' ''u'' ''A'' 1000 empty_db)) =
        [\<lparr>vs_id = 1, vs_guild_id = ''g'', vs_user_id = ''u'', vs_channel_id = ''A'',
          joined_at = 1000, left_at = Some 1500, duration_seconds = Some 500\<rparr>,
         \<lparr>vs_id = 2, vs_guild_id = ''g'', vs_user_id = ''u'', vs_channel_id = ''B'',
          joined_at = 1501, left_at = None, duration_seconds = None\<rparr>]"
proof -
  have h1: "state_channel (st ''g'' ''u'' (Some ''A'')) = Some ''A''" by (simp add: st_def)
  have h2: "state_channel (st ''g'' ''u'' (Some ''B'')) = Some ''B''" by (simp add: st_def)
  have h3: "''A'' \<noteq> ''B''" by simp
  have h4: "event_pair (st ''g'' ''u'' (Some ''A'')) (st ''g'' ''u'' (Some ''B''))
              = Some (''g'', ''u'')"
    by (simp add: st_def event_pair_def nullish_def)
  have h5: "selectOpenVoiceSession ''g'' ''u'' (insertVoiceSession ''g'' ''u'' ''A'' 1000 empty_db)
              = Some (1, 1000)"
    by (simp add: selectOpenVoiceSession_def insertVoiceSession_def empty_db_def is_open_def
          next_rowid_def)
  have rows: "voice_sessions (insertVoiceSession ''g'' ''u'' ''A'' 1000 empty_db) =
        [\<lparr>vs_id = 1, vs_guild_id = ''g'', vs_user_id = ''u'', vs_channel_id = ''A'',
          joined_at = 1000, left_at = None, duration_seconds = None\<rparr>]"
    by (simp add: insertVoiceSession_def empty_db_def next_rowid_def)
  note sw = switch_closes_then_opens[OF h1 h2 h3 h4 h5 h3, of 1500 1501]
  have res: "voice_sessions
        (onVoiceUpdate (st ''g'' ''u'' (Some ''A'')) (st ''g'' ''u'' (Some ''B'')) 1500 1501
           (insertVoiceSession ''g'' ''u'' ''A'' 1000 empty_db)) =
        [\<lparr>vs_id = 1, vs_guild_id = ''g'', vs_user_id = ''u'', vs_channel_id = ''A'',
          joined_at = 1000, left_at = Some 1500, duration_seconds = Some 500\<rparr>,
         \<lparr>vs_id = 2, vs_guild_id = ''g'', vs_user_id = ''u'', vs_channel_id = ''B'',
          joined_at = 1501, left_at = None, duration_seconds = None\<rparr>]"
    by (simp add: conjunct1[OF conjunct2[OF sw]] rows next_rowid_def)
  show ?thesis
    using h1 h2 h3 h4 h5 res by blast
qed


section \<open>C4: a message delivered twice\<close>

text \<open>
  C4. Let a recorded message (guild present, author present and not a bot) be delivered at
  \<open>t1\<close> and again at \<open>t2\<close>, on a table that respects \<open>UNIQUE(message_id)\<close>. Neither
  delivery logs an error, the second one leaves the \<open>messages\<close> table as the first one
  left it, and the table holds exactly one row with that \<open>message_id\<close>.
\<close>

theorem redelivered_message_is_ignored:
  assumes "m_guild message = Some g" and "m_author message = Some a" and "\<not> author_bot a"
    and "distinct (map message_id (messages d))"
  shows "(let r1 = logMessageToDB message t1 d; r2 = logMessageToDB message t2 (fst r1)
          in snd r1 = None \<and> snd r2 = None
             \<and> messages (fst r2) = messages (fst r1)
             \<and> length (filter (\<lambda>r. message_id r = m_id message) (messages (fst r2))) = 1)"
proof -
  let ?row = "\<lambda>ts. \<lparr>msg_id = 0, msg_guild_id = g, msg_channel_id = m_channel_id message,
          msg_user_id = author_id a, message_id = m_id message, created_at = ts,
          has_attachment = Some (case m_attachments_size message of
                                   None \<Rightarrow> 0 | Some n \<Rightarrow> if 0 < n then 1 else 0),
          attachment_count = Some (case m_attachments_size message of
                                     None \<Rightarrow> 0 | Some n \<Rightarrow> int n),
          x_link_count = Some (int (xCount (m_content message)))\<rparr>"
  let ?d1 = "insertMessage (?row t1) (insertOrUpdateUser g (author_id a) t1 d)"
  let ?u2 = "insertOrUpdateUser g (author_id a) t2 ?d1"
  have r1: "logMessageToDB message t1 d = (?d1, None)"
    using assms(1-3) by (rule logMessageToDB_recorded)
  have r2: "logMessageToDB message t2 ?d1 = (insertMessage (?row t2) ?u2, None)"
    using assms(1-3) by (rule logMessageToDB_recorded)
  have present: "list_ex (\<lambda>r. message_id r = m_id message) (messages ?d1)"
    using insertMessage_present[of "?row t1" "insertOrUpdateUser g (author_id a) t1 d"] by simp
  have dist: "distinct (map message_id (messages ?d1))"
    using assms(4) by (intro insertMessage_distinct) (simp add: messages_insertOrUpdateUser)
  have "list_ex (\<lambda>r. message_id r = message_id (?row t2)) (messages ?u2)"
    using present by (simp add: messages_insertOrUpdateUser)
  then have "messages (insertMessage (?row t2) ?u2) = messages ?u2"
    by (rule insertMessage_ignored_messages)
  then have same: "messages (insertMessage (?row t2) ?u2) = messages ?d1"
    by (simp add: messages_insertOrUpdateUser)
  have one: "length (filter (\<lambda>r. message_id r = m_id message) (messages ?d1)) = 1"
    using dist present by (rule count_key_one)
  show ?thesis
    unfolding Let_def r1 fst_conv snd_conv r2 using same one by simp
qed

theorem redelivered_message_is_ignored_witness:
  "m_guild (example_message []) = Some ''g''
   \<and> m_author (example_message []) = Some \<lparr>author_id = ''u'', author_bot = False\<rparr>
   \<and> \<not> author_bot \<lparr>author_id = ''u'', author_bot = False\<rparr>
   \<and> distinct (map message_id (messages empty_db))
   \<and> messages (fst (logMessageToDB (example_message []) 20
                      (fst (logMessageToDB (example_message []) 10 empty_db))))
       = messages (fst (logMessageToDB (example_message []) 10 empty_db))
   \<and> length (filter (\<lambda>r. message_id r = ''m1'')
        (messages (fst (logMessageToDB (example_message []) 20
                      (fst (logMessageToDB (example_message []) 10 empty_db)))))) = 1"
proof -
  have h1: "m_guild (example_message []) = Some ''g''" by (simp add: example_message_def)
  have h2: "m_author (example_message []) = Some \<lparr>author_id = ''u'', author_bot = False\<rparr>"
    by (simp add: example_message_def)
  have h3: "\<not> author_bot \<lparr>author_id = ''u'', author_bot = False\<rparr>" by simp
  have h4: "distinct (map message_id (messages empty_db))" by (simp add: empty_db_def)
  have h5: "m_id (example_message []) = ''m1''" by (simp add: example_message_def)
  show ?thesis
    using h1 h2 h3 h4 redelivered_message_is_ignored[OF h1 h2 h3 h4, of 10 20]
    unfolding Let_def h5 by blast
qed

section \<open>C5: the presence upsert\<close>

text \<open>
  C5. For a recorded message (guild present, author present and not a bot) at clock
  reading \<open>ts\<close>: when the pair has no presence row, one row with
  \<open>first_seen = last_seen = ts\<close> is appended and no other row changes; when it has one,
  \<open>last_seen\<close> of that row becomes \<open>ts\<close> and no other column of any row changes. Hence,
  over any sequence of events, the \<open>first_seen\<close> of a pair that has a row stays what it
  was, and so never decreases.
\<close>

theorem presence_upsert_keeps_first_seen:
  assumes "m_guild message = Some g" and "m_author message = Some a" and "\<not> author_bot a"
  shows "guild_users (fst (logMessageToDB message ts d)) =
           (if list_ex (is_user g (author_id a)) (guild_users d)
            then map (\<lambda>r. if is_user g (author_id a) r then r\<lparr>last_seen := ts\<rparr> else r)
                   (guild_users d)
            else guild_users d @
                   [\<lparr>gu_id = autoincrement (guild_users_seq d) (map gu_id (guild_users d)),
                     gu_guild_id = g, gu_user_id = author_id a,
                     first_seen = ts, last_seen = ts\<rparr>])
         \<and> (\<forall>g' u' r. user_row g' u' d = Some r \<longrightarrow>
               (\<exists>r'. user_row g' u' (run evs d) = Some r'
                    \<and> first_seen r' = first_seen r \<and> first_seen r \<le> first_seen r'))"
proof -
  have "guild_users (fst (logMessageToDB message ts d)) =
          guild_users (insertOrUpdateUser g (author_id a) ts d)"
    using assms by (simp add: logMessageToDB_recorded guild_users_insertMessage)
  then have step: "guild_users (fst (logMessageToDB message ts d)) =
           (if list_ex (is_user g (author_id a)) (guild_users d)
            then map (\<lambda>r. if is_user g (author_id a) r then r\<lparr>last_seen := ts\<rparr> else r)
                   (guild_users d)
            else guild_users d @
                   [\<lparr>gu_id = autoincrement (guild_users_seq d) (map gu_id (guild_users d)),
                     gu_guild_id = g, gu_user_id = author_id a,
                     first_seen = ts, last_seen = ts\<rparr>])"
    by (simp add: insertOrUpdateUser_def Let_def)
  have keep: "\<exists>r'. user_row g' u' (run evs d) = Some r'
                \<and> first_seen r' = first_seen r \<and> first_seen r \<le> first_seen r'"
    if "user_row g' u' d = Some r" for g' u' r
  proof -
    from run_first_seen[OF that, of evs]
    obtain r' where "user_row g' u' (run evs d) = Some r'" "first_seen r' = first_seen r"
      by blast
    then show ?thesis by simp
  qed
  from step keep show ?thesis by blast
qed

text \<open>
  The witness delivers three messages to the empty store: the first, of user \<open>u\<close>, inserts
  row 1; the second, of \<open>u\<close> again at a later reading, rewrites \<open>last_seen\<close> only; the
  third, of user \<open>v\<close> at an earlier reading, inserts a row whose rowid is 3, the update
  having used up 2.
\<close>

theorem presence_upsert_keeps_first_seen_witness:
  "m_guild (example_message_of ''u'' ''m1'') = Some ''g''
   \<and> m_author (example_message_of ''u'' ''m1'') = Some \<lparr>author_id = ''u'', author_bot = False\<rparr>
   \<and> \<not> author_bot \<lparr>author_id = ''u'', author_bot = False\<rparr>
   \<and> guild_users (fst (logMessageToDB (example_message_of ''u'' ''m1'') 10 empty_db))
       = [\<lparr>gu_id = 1, gu_guild_id = ''g'', gu_user_id = ''u'', first_seen = 10, last_seen = 10\<rparr>]
   \<and> guild_users (run [MessageCreate (example_message_of ''u'' ''m1'') 10,
                        MessageCreate (example_message_of ''u'' ''m2'') 20] empty_db)
       = [\<lparr>gu_id = 1, gu_guild_id = ''g'', gu_user_id = ''u'', first_seen = 10, last_seen = 20\<rparr>]
   \<and> guild_users (run [MessageCreate (example_message_of ''u'' ''m1'') 10,
                        MessageCreate (example_message_of ''u'' ''m2'') 20,
                        MessageCreate (example_message_of ''v'' ''m3'') 5] empty_db)
       = [\<lparr>gu_id = 1, gu_guild_id = ''g'', gu_user_id = ''u'', first_seen = 10, last_seen = 20\<rparr>,
          \<lparr>gu_id = 3, gu_guild_id = ''g'', gu_user_id = ''v'', first_seen = 5, last_seen = 5\<rparr>]
   \<and> user_row ''g'' ''u'' (fst (logMessageToDB (example_message_of ''u'' ''m1'') 10 empty_db))
       = Some \<lparr>gu_id = 1, gu_guild_id = ''g'', gu_user_id = ''u'', first_seen = 10, last_seen = 10\<rparr>
   \<and> (\<exists>r'. user_row ''g'' ''u''
               (run [MessageCreate (example_message_of ''u'' ''m2'') 20,
                     MessageCreate (example_message_of ''v'' ''m3'') 5]
                  (fst (logMessageToDB (example_message_of ''u'' ''m1'') 10 empty_db))) = Some r'
             \<and> first_seen r' = 10)"
proof -
  let ?m1 = "example_message_of ''u'' ''m1''"
  let ?m2 = "example_message_of ''u'' ''m2''"
  let ?m3 = "example_message_of ''v'' ''m3''"
  let ?d1 = "fst (logMessageToDB ?m1 10 empty_db)"
  let ?d2 = "fst (logMessageToDB ?m2 20 ?d1)"
  have g: "m_guild (example_message_of w i) = Some ''g''" for w i
    by (simp add: example_message_of_def)
  have au: "m_author (example_message_of w i) = Some \<lparr>author_id = w, author_bot = False\<rparr>" for w i
    by (simp add: example_message_of_def)
  have nb: "\<not> author_bot \<lparr>author_id = w, author_bot = False\<rparr>" for w :: snowflake
    by simp
  have gu0: "guild_users empty_db = []" "guild_users_seq empty_db = 0"
    by (simp_all add: empty_db_def)
  have seq: "guild_users_seq (fst (logMessageToDB (example_message_of w i) ts x)) =
             autoincrement (guild_users_seq x) (map gu_id (guild_users x))" for w i ts x
    by (simp add: logMessageToDB_recorded[OF g au nb] insertMessage_def insertOrUpdateUser_def Let_def)
  have r1: "guild_users ?d1 =
      [\<lparr>gu_id = 1, gu_guild_id = ''g'', gu_user_id = ''u'', first_seen = 10, last_seen = 10\<rparr>]"
    using conjunct1[OF presence_upsert_keeps_first_seen
        [where message = "?m1" and ts = 10 and d = empty_db, OF g au nb]]
    by (simp add: gu0 autoincrement_def next_rowid_def)
  have s1: "guild_users_seq ?d1 = 1"
    by (simp add: seq gu0 autoincrement_def next_rowid_def)
  have r2: "guild_users ?d2 =
      [\<lparr>gu_id = 1, gu_guild_id = ''g'', gu_user_id = ''u'', first_seen = 10, last_seen = 20\<rparr>]"
    using conjunct1[OF presence_upsert_keeps_first_seen
        [where message = "?m2" and ts = 20 and d = "?d1", OF g au nb]]
    by (simp add: r1 is_user_def)
  have s2: "guild_users_seq ?d2 = 2"
    by (simp add: seq[of "''u''" "''m2''" 20 ?d1] r1 s1 autoincrement_def next_rowid_def)
  have r3: "guild_users (fst (logMessageToDB ?m3 5 ?d2)) =
      [\<lparr>gu_id = 1, gu_guild_id = ''g'', gu_user_id = ''u'', first_seen = 10, last_seen = 20\<rparr>,
       \<lparr>gu_id = 3, gu_guild_id = ''g'', gu_user_id = ''v'', first_seen = 5, last_seen = 5\<rparr>]"
    using conjunct1[OF presence_upsert_keeps_first_seen
        [where message = "?m3" and ts = 5 and d = "?d2", OF g au nb]]
    by (simp add: r2 s2 is_user_def autoincrement_def next_rowid_def)
  have h4: "user_row ''g'' ''u'' ?d1
       = Some \<lparr>gu_id = 1, gu_guild_id = ''g'', gu_user_id = ''u'', first_seen = 10, last_seen = 10\<rparr>"
    by (simp add: user_row_def r1 is_user_def)
  have c2: "\<exists>r'. user_row ''g'' ''u''
               (run [MessageCreate ?m2 20, MessageCreate ?m3 5] ?d1) = Some r'
             \<and> first_seen r' = 10"
    using conjunct2[OF presence_upsert_keeps_first_seen
        [where message = "?m1" and d = "?d1"
           and evs = "[MessageCreate ?m2 20, MessageCreate ?m3 5]", OF g au nb]] h4
    by fastforce
  show ?thesis
    using g[of "''u''" "''m1''"] au[of "''u''" "''m1''"] nb[of "''u''"] r1 r2 r3 h4 c2
    by (simp add: run_def)
qed

section \<open>C9: a redelivered message still refreshes the presence row\<close>

text \<open>
  C9. When a recorded message (guild present, author present and not a bot) arrives whose
  \<open>message_id\<close> is in the table already, the upsert runs before the ignored insert: the
  result is the store that the upsert leaves, in which the ignored insert has only used up
  a rowid; the \<open>messages\<close> table is unchanged, and the presence row of the pair has
  \<open>last_seen = ts\<close>, the clock reading of this delivery.
\<close>

theorem redelivery_refreshes_last_seen:
  assumes "m_guild message = Some g" and "m_author message = Some a" and "\<not> author_bot a"
    and "list_ex (\<lambda>r. message_id r = m_id message) (messages d)"
  shows "logMessageToDB message ts d =
           ((insertOrUpdateUser g (author_id a) ts d)
              \<lparr>messages_seq := autoincrement (messages_seq d) (map msg_id (messages d))\<rparr>, None)
         \<and> messages (fst (logMessageToDB message ts d)) = messages d
         \<and> (\<exists>r. user_row g (author_id a) (fst (logMessageToDB message ts d)) = Some r
                \<and> last_seen r = ts)"
proof -
  let ?row = "\<lparr>msg_id = 0, msg_guild_id = g, msg_channel_id = m_channel_id message,
          msg_user_id = author_id a, message_id = m_id message, created_at = ts,
          has_attachment = Some (case m_attachments_size message of
                                   None \<Rightarrow> 0 | Some n \<Rightarrow> if 0 < n then 1 else 0),
          attachment_count = Some (case m_attachments_size message of
                                     None \<Rightarrow> 0 | Some n \<Rightarrow> int n),
          x_link_count = Some (int (xCount (m_content message)))\<rparr>"
  let ?u = "insertOrUpdateUser g (author_id a) ts d"
  have "list_ex (\<lambda>r. message_id r = message_id ?row) (messages ?u)"
    using assms(4) by (simp add: messages_insertOrUpdateUser)
  then have "insertMessage ?row ?u =
             ?u\<lparr>messages_seq := autoincrement (messages_seq ?u) (map msg_id (messages ?u))\<rparr>"
    by (rule insertMessage_ignored)
  then have eq: "logMessageToDB message ts d =
           (?u\<lparr>messages_seq := autoincrement (messages_seq d) (map msg_id (messages d))\<rparr>, None)"
    using logMessageToDB_recorded[OF assms(1-3), of ts d]
    by (simp add: messages_insertOrUpdateUser messages_seq_insertOrUpdateUser)
  show ?thesis
    unfolding eq fst_conv
    using user_row_upsert_last_seen[of g "author_id a" ts d]
    by (simp add: messages_insertOrUpdateUser user_row_def)
qed

theorem redelivery_refreshes_last_seen_witness:
  "m_guild (example_message []) = Some ''g''
   \<and> m_author (example_message []) = Some \<lparr>author_id = ''u'', author_bot = False\<rparr>
   \<and> \<not> author_bot \<lparr>author_id = ''u'', author_bot = False\<rparr>
   \<and> list_ex (\<lambda>r. message_id r = m_id (example_message []))
        (messages (fst (logMessageToDB (example_message []) 10 empty_db)))
   \<and> messages (fst (logMessageToDB (example_message []) 20
                      (fst (logMessageToDB (example_message []) 10 empty_db))))
       = messages (fst (logMessageToDB (example_message []) 10 empty_db))
   \<and> (\<exists>r. user_row ''g'' ''u''
              (fst (logMessageToDB (example_message []) 20
                      (fst (logMessageToDB (example_message []) 10 empty_db)))) = Some r
            \<and> last_seen r = 20)"
proof -
  have h1: "m_guild (example_message []) = Some ''g''" by (simp add: example_message_def)
  have h2: "m_author (example_message []) = Some \<lparr>author_id = ''u'', author_bot = False\<rparr>"
    by (simp add: example_message_def)
  have h3: "\<not> author_bot \<lparr>author_id = ''u'', author_bot = False\<rparr>" by simp
  have h4: "list_ex (\<lambda>r. message_id r = m_id (example_message []))
        (messages (fst (logMessageToDB (example_message []) 10 empty_db)))"
    by (simp add: logMessageToDB_recorded[OF h1 h2 h3] insertMessage_def Let_def)
  note th = redelivery_refreshes_last_seen[OF h1 h2 h3 h4, of 20]
  show ?thesis
    using h1 h2 h3 h4 conjunct2[OF th] by simp
qed

section \<open>C2: the voice total\<close>

text \<open>
  C2. In every store that the handlers build from the empty one, the voice total of the
  stats query is the sum of \<open>duration_seconds\<close> over the closed sessions of the pair only:
  a session with \<open>left_at = NULL\<close> has no duration yet and contributes 0 until it is
  closed. The total is the plain sum as long as the durations of the pair stay, in absolute
  value, within \<open>2^53\<close> together, the range in which the 64-bit sum cannot overflow and the
  JavaScript number is exact; the embed, when the other two queries do not fail, shows that
  total.
\<close>

theorem voice_total_is_closed_total:
  assumes "voice_in_range g u (run evs empty_db)"
  shows "voiceRow g u (run evs empty_db) = Inr (closed_total g u (run evs empty_db))
         \<and> (\<forall>s. buildStatsEmbed g u (run evs empty_db) = StatsEmbed s \<longrightarrow>
                totalVoiceSec s = closed_total g u (run evs empty_db))"
proof -
  let ?d = "run evs empty_db"
  have "open_without_duration empty_db"
    by (simp add: open_without_duration_def empty_db_def)
  then have "open_without_duration ?d" by (rule open_without_duration_run)
  then have row: "voiceRow g u ?d = Inr (closed_total g u ?d)"
    using assms by (rule voiceRow_closed_total)
  have "totalVoiceSec s = closed_total g u ?d" if "buildStatsEmbed g u ?d = StatsEmbed s" for s
    using that row by (auto simp: buildStatsEmbed_def split: sum.splits prod.splits)
  with row show ?thesis by blast
qed

theorem voice_total_is_closed_total_witness:
  "voice_in_range ''g'' ''u''
     (run [VoiceStateUpdate (st ''g'' ''u'' None) (st ''g'' ''u'' (Some ''A'')) 1000 1000,
           VoiceStateUpdate (st ''g'' ''u'' (Some ''A'')) (st ''g'' ''u'' (Some ''B'')) 1500 1500,
           VoiceStateUpdate (st ''g'' ''u'' (Some ''B'')) (st ''g'' ''u'' None) 1800 1800,
           VoiceStateUpdate (st ''g'' ''u'' None) (st ''g'' ''u'' (Some ''A'')) 2000 2000] empty_db)
   \<and> voiceRow ''g'' ''u''
     (run [VoiceStateUpdate (st ''g'' ''u'' None) (st ''g'' ''u'' (Some ''A'')) 1000 1000,
           VoiceStateUpdate (st ''g'' ''u'' (Some ''A'')) (st ''g'' ''u'' (Some ''B'')) 1500 1500,
           VoiceStateUpdate (st ''g'' ''u'' (Some ''B'')) (st ''g'' ''u'' None) 1800 1800,
           VoiceStateUpdate (st ''g'' ''u'' None) (st ''g'' ''u'' (Some ''A'')) 2000 2000] empty_db)
     = Inr 800
   \<and> buildStatsEmbed ''g'' ''u''
     (run [VoiceStateUpdate (st ''g'' ''u'' None) (st ''g'' ''u'' (Some ''A'')) 1000 1000,
           VoiceStateUpdate (st ''g'' ''u'' (Some ''A'')) (st ''g'' ''u'' (Some ''B'')) 1500 1500,
           VoiceStateUpdate (st ''g'' ''u'' (Some ''B'')) (st ''g'' ''u'' None) 1800 1800,
           VoiceStateUpdate (st ''g'' ''u'' None) (st ''g'' ''u'' (Some ''A'')) 2000 2000] empty_db)
     = StatsEmbed \<lparr>totalMessages = 0, totalAttachments = 0, totalVoiceSec = 800, totalXLinks = 0\<rparr>"
proof -
  let ?evs = "[VoiceStateUpdate (st ''g'' ''u'' None) (st ''g'' ''u'' (Some ''A'')) 1000 1000,
           VoiceStateUpdate (st ''g'' ''u'' (Some ''A'')) (st ''g'' ''u'' (Some ''B'')) 1500 1500,
           VoiceStateUpdate (st ''g'' ''u'' (Some ''B'')) (st ''g'' ''u'' None) 1800 1800,
           VoiceStateUpdate (st ''g'' ''u'' None) (st ''g'' ''u'' (Some ''A'')) 2000 2000]"
  have store: "run ?evs empty_db =
      \<lparr>guild_users = [], guild_users_seq = 0, messages = [], messages_seq = 0,
        voice_sessions =
          [\<lparr>vs_id = 1, vs_guild_id = ''g'', vs_user_id = ''u'', vs_channel_id = ''A'',
            joined_at = 1000, left_at = Some 1500, duration_seconds = Some 500\<rparr>,
           \<lparr>vs_id = 2, vs_guild_id = ''g'', vs_user_id = ''u'', vs_channel_id = ''B'',
            joined_at = 1500, left_at = Some 1800, duration_seconds = Some 300\<rparr>,
           \<lparr>vs_id = 3, vs_guild_id = ''g'', vs_user_id = ''u'', vs_channel_id = ''A'',
            joined_at = 2000, left_at = None, duration_seconds = None\<rparr>]\<rparr>"
    by (simp add: run_def st_def onVoiceUpdate_def nullish_def insertVoiceSession_def
          updateVoiceSessionLeave_def selectOpenVoiceSession_def is_open_def empty_db_def
          next_rowid_def)
  have h: "voice_in_range ''g'' ''u'' (run ?evs empty_db)"
    unfolding store by (simp add: voice_in_range_def coalesce_def)
  have c: "closed_total ''g'' ''u'' (run ?evs empty_db) = 800"
    unfolding store by (simp add: closed_total_def coalesce_def)
  note th = voice_total_is_closed_total[OF h]
  have row: "voiceRow ''g'' ''u'' (run ?evs empty_db) = Inr 800"
    using conjunct1[OF th] c by simp
  have "msgRow ''g'' ''u'' (run ?evs empty_db) = Inr (0, 0)"
    unfolding store by (simp add: msgRow_def sql_sum_Nil coalesce_def to_number_exact)
  moreover have "xRow ''g'' ''u'' (run ?evs empty_db) = Inr 0"
    unfolding store by (simp add: xRow_def sql_sum_Nil coalesce_def to_number_exact)
  ultimately have "buildStatsEmbed ''g'' ''u'' (run ?evs empty_db)
     = StatsEmbed \<lparr>totalMessages = 0, totalAttachments = 0, totalVoiceSec = 800, totalXLinks = 0\<rparr>"
    using row by (simp add: buildStatsEmbed_def)
  with h row show ?thesis by blast
qed

section \<open>C7: a pair without rows\<close>

text \<open>
  C7. For a pair with no row in \<open>messages\<close> and no row in \<open>voice_sessions\<close> (whatever
  \<open>guild_users\<close> holds, which the query does not read) the query returns the embed with
  the four totals, not the fallback, and each total is the number 0: \<open>COUNT(*)\<close> is 0
  and each \<open>SUM\<close>, which is \<open>NULL\<close> over no rows, is replaced by 0.
\<close>

theorem stats_of_pair_without_rows:
  assumes "\<not> list_ex (\<lambda>r. msg_guild_id r = g \<and> msg_user_id r = u) (messages d)"
    and "\<not> list_ex (\<lambda>r. vs_guild_id r = g \<and> vs_user_id r = u) (voice_sessions d)"
  shows "buildStatsEmbed g u d =
           StatsEmbed \<lparr>totalMessages = 0, totalAttachments = 0, totalVoiceSec = 0,
                        totalXLinks = 0\<rparr>"
proof -
  have m: "filter (\<lambda>r. msg_guild_id r = g \<and> msg_user_id r = u) (messages d) = []"
    using assms(1) by (auto simp: filter_empty_conv list_ex_iff)
  have v: "filter (\<lambda>r. vs_guild_id r = g \<and> vs_user_id r = u) (voice_sessions d) = []"
    using assms(2) by (auto simp: filter_empty_conv list_ex_iff)
  show ?thesis
    by (simp add: buildStatsEmbed_def msgRow_def voiceRow_def xRow_def Let_def m v
          sql_sum_Nil coalesce_def to_number_exact)
qed

theorem stats_of_pair_without_rows_witness:
  "\<not> list_ex (\<lambda>r. msg_guild_id r = ''g'' \<and> msg_user_id r = ''u'')
        (messages (insertVoiceSession ''g'' ''other'' ''A'' 1000 empty_db))
   \<and> \<not> list_ex (\<lambda>r. vs_guild_id r = ''g'' \<and> vs_user_id r = ''u'')
        (voice_sessions (insertVoiceSession ''g'' ''other'' ''A'' 1000 empty_db))
   \<and> buildStatsEmbed ''g'' ''u'' (insertVoiceSession ''g'' ''other'' ''A'' 1000 empty_db) =
        StatsEmbed \<lparr>totalMessages = 0, totalAttachments = 0, totalVoiceSec = 0,
                     totalXLinks = 0\<rparr>"
proof -
  have h1: "\<not> list_ex (\<lambda>r. msg_guild_id r = ''g'' \<and> msg_user_id r = ''u'')
        (messages (insertVoiceSession ''g'' ''other'' ''A'' 1000 empty_db))"
    by (simp add: insertVoiceSession_def empty_db_def)
  have h2: "\<not> list_ex (\<lambda>r. vs_guild_id r = ''g'' \<and> vs_user_id r = ''u'')
        (voice_sessions (insertVoiceSession ''g'' ''other'' ''A'' 1000 empty_db))"
    by (simp add: insertVoiceSession_def empty_db_def)
  show ?thesis
    using h1 h2 stats_of_pair_without_rows[OF h1 h2] by blast
qed

section \<open>C8: the link count\<close>

text \<open>
  C8 as stated fails: the ingestor takes no pattern. \<open>logMessageToDB\<close> counts the matches
  of the constant \<open>X_LINK_REGEX\<close>, which names the hosts \<open>x.com\<close>, \<open>twitter.com\<close> and
  \<open>t.co\<close>; for the pattern of another platform the stored count is not the number of
  its matches.
\<close>

theorem link_count_is_not_of_another_pattern:
  "x_link_count (last (messages (fst
       (logMessageToDB (example_message (utf16 ''github.com/ab'')) 10 empty_db))))
     \<noteq> Some (int (count_matches (lits ''github.com/'') (utf16 ''github.com/ab'')))
   \<and> x_link_count (last (messages (fst
       (logMessageToDB (example_message (utf16 ''github.com/ab'')) 10 empty_db)))) = Some 0
   \<and> count_matches (lits ''github.com/'') (utf16 ''github.com/ab'') = 1"
  by (simp add: logMessageToDB_def example_message_def insertOrUpdateUser_def insertMessage_def
        Let_def empty_db_def xCount_def js_match_def count_matches_def rx_eval)

text \<open>
  C8 (as amended). For every recorded message (guild present, author present and not a
  bot) whose \<open>message_id\<close> is new, the row that is appended carries as \<open>x_link_count\<close> the
  number of matches that the global scan finds in the text for the fixed pattern
  \<open>X_LINK_REGEX\<close>, a constant of the module; the pattern characters are compared without
  regard to case, and the matches found are in increasing order and do not overlap, each
  one a match of the pattern at its start.
\<close>

theorem link_count_is_x_link_matches:
  assumes "m_guild message = Some g" and "m_author message = Some a" and "\<not> author_bot a"
    and "\<not> list_ex (\<lambda>r. message_id r = m_id message) (messages d)"
  shows "length (messages (fst (logMessageToDB message ts d))) = length (messages d) + 1
         \<and> message_id (last (messages (fst (logMessageToDB message ts d)))) = m_id message
         \<and> x_link_count (last (messages (fst (logMessageToDB message ts d)))) =
             Some (int (count_matches X_LINK_REGEX (m_content message)))
         \<and> non_overlapping (scan X_LINK_REGEX (m_content message) 0 0)
         \<and> (\<forall>(j, n) \<in> set (scan X_LINK_REGEX (m_content message) 0 0).
               \<exists>s' rest. rmatch X_LINK_REGEX (drop j (m_content message)) = s' # rest
                   \<and> n = length (drop j (m_content message)) - length s')"
proof -
  have "\<not> list_ex (\<lambda>r. message_id r = m_id message)
           (messages (insertOrUpdateUser g (author_id a) ts d))"
    using assms(4) by (simp add: messages_insertOrUpdateUser)
  then have rows: "length (messages (fst (logMessageToDB message ts d))) = length (messages d) + 1
         \<and> message_id (last (messages (fst (logMessageToDB message ts d)))) = m_id message
         \<and> x_link_count (last (messages (fst (logMessageToDB message ts d)))) =
             Some (int (count_matches X_LINK_REGEX (m_content message)))"
    by (simp add: logMessageToDB_recorded[OF assms(1-3)] insertMessage_def Let_def
          messages_insertOrUpdateUser xCount_count_matches)
  have sound: "\<forall>(j, n) \<in> set (scan X_LINK_REGEX (m_content message) 0 0).
               \<exists>s' rest. rmatch X_LINK_REGEX (drop j (m_content message)) = s' # rest
                   \<and> n = length (drop j (m_content message)) - length s'"
  proof (clarify)
    fix j n assume "(j, n) \<in> set (scan X_LINK_REGEX (m_content message) 0 0)"
    from scan_sound[OF this]
    show "\<exists>s' rest. rmatch X_LINK_REGEX (drop j (m_content message)) = s' # rest
                   \<and> n = length (drop j (m_content message)) - length s'"
      by simp
  qed
  show ?thesis
    using rows scan_non_overlapping[of X_LINK_REGEX "m_content message" 0 0] sound by blast
qed

theorem link_count_is_x_link_matches_witness:
  "m_guild (example_message (utf16 ''X.com/ab TWITTER.COM/cd t.CO/ef'')) = Some ''g''
   \<and> m_author (example_message (utf16 ''X.com/ab TWITTER.COM/cd t.CO/ef''))
       = Some \<lparr>author_id = ''u'', author_bot = False\<rparr>
   \<and> \<not> author_bot \<lparr>author_id = ''u'', author_bot = False\<rparr>
   \<and> \<not> list_ex (\<lambda>r. message_id r = m_id (example_message (utf16 ''X.com/ab TWITTER.COM/cd t.CO/ef'')))
          (messages empty_db)
   \<and> x_link_count (last (messages (fst
        (logMessageToDB (example_message (utf16 ''X.com/ab TWITTER.COM/cd t.CO/ef'')) 10 empty_db)))) = Some 3"
proof -
  let ?m = "example_message (utf16 ''X.com/ab TWITTER.COM/cd t.CO/ef'')"
  have h1: "m_guild ?m = Some ''g''" by (simp add: example_message_def)
  have h2: "m_author ?m = Some \<lparr>author_id = ''u'', author_bot = False\<rparr>"
    by (simp add: example_message_def)
  have h3: "\<not> author_bot \<lparr>author_id = ''u'', author_bot = False\<rparr>" by simp
  have h4: "\<not> list_ex (\<lambda>r. message_id r = m_id ?m) (messages empty_db)"
    by (simp add: empty_db_def)
  have n: "count_matches X_LINK_REGEX (m_content ?m) = 3"
    by (simp add: example_message_def count_matches_def rx_eval)
  note th = link_count_is_x_link_matches[OF h1 h2 h3 h4, of 10]
  have "x_link_count (last (messages (fst (logMessageToDB ?m 10 empty_db)))) = Some 3"
    using conjunct1[OF conjunct2[OF conjunct2[OF th]]] n by simp
  with h1 h2 h3 h4 show ?thesis by blast
qed


end
